theory Spec2Isabelle
  imports Complex_Main
begin

section \<open>JavaScript numbers\<close>

text \<open>
  \<^verbatim>\<open>calculator.js\<close> computes on JavaScript Numbers, that is IEEE-754 binary64 values.
  A Number is modelled as \<open>NaN\<close>, one of the two infinities, or a finite value \<open>Fin x\<close>
  carrying its exact real value. The two zeros are identified (\<open>Fin 0\<close> stands for \<open>+0\<close>):
  the program compares, adds and multiplies, and never tells them apart on the paths below.
  Every arithmetic operation computes the exact real result and rounds it to the nearest
  binary64 value, ties to even (\<open>fl\<close>), overflowing to an infinity.
\<close>

datatype number = NaN | PInf | NInf | Fin real

text \<open>Round to the nearest integer, ties to the even one.\<close>

definition rne :: "real \<Rightarrow> int" where
  "rne m = (let f = \<lfloor>m\<rfloor>; d = m - of_int f in
              if d < 1 / 2 then f
              else if 1 / 2 < d then f + 1
              else if even f then f else f + 1)"

text \<open>
  The binary exponent of a nonzero real, clamped below at the exponent of the subnormal
  range, and the spacing of the binary64 grid around it (53 significant bits).
\<close>

definition expo :: "real \<Rightarrow> int" where
  "expo x = max (- 1022) \<lfloor>log 2 \<bar>x\<bar>\<rfloor>"

definition ulp :: "real \<Rightarrow> real" where
  "ulp x = 2 powi (expo x - 52)"

text \<open>Rounding to the grid, before the overflow test.\<close>

definition rnd :: "real \<Rightarrow> real" where
  "rnd x = of_int (rne (x / ulp x)) * ulp x"

definition fl :: "real \<Rightarrow> number" where
  "fl x = (let r = rnd x in
             if 2 ^ 1024 \<le> r then PInf
             else if r \<le> - (2 ^ 1024) then NInf
             else Fin r)"

text \<open>A real is a binary64 value when rounding leaves it unchanged.\<close>

definition is_double :: "real \<Rightarrow> bool" where
  "is_double x = (fl x = Fin x)"

fun is_number :: "number \<Rightarrow> bool" where
  "is_number (Fin x) = is_double x"
| "is_number _ = True"

fun isFinite :: "number \<Rightarrow> bool" where
  "isFinite (Fin x) = True"
| "isFinite _ = False"

subsection \<open>Arithmetic\<close>

fun js_neg :: "number \<Rightarrow> number" where
  "js_neg NaN = NaN"
| "js_neg PInf = NInf"
| "js_neg NInf = PInf"
| "js_neg (Fin a) = Fin (- a)"

fun js_add :: "number \<Rightarrow> number \<Rightarrow> number" where
  "js_add NaN _ = NaN"
| "js_add _ NaN = NaN"
| "js_add PInf NInf = NaN"
| "js_add NInf PInf = NaN"
| "js_add PInf _ = PInf"
| "js_add _ PInf = PInf"
| "js_add NInf _ = NInf"
| "js_add _ NInf = NInf"
| "js_add (Fin a) (Fin b) = fl (a + b)"

definition js_sub :: "number \<Rightarrow> number \<Rightarrow> number" where
  "js_sub a b = js_add a (js_neg b)"

fun js_mul :: "number \<Rightarrow> number \<Rightarrow> number" where
  "js_mul NaN _ = NaN"
| "js_mul _ NaN = NaN"
| "js_mul (Fin a) (Fin b) = fl (a * b)"
| "js_mul (Fin a) PInf = (if a = 0 then NaN else if 0 < a then PInf else NInf)"
| "js_mul (Fin a) NInf = (if a = 0 then NaN else if 0 < a then NInf else PInf)"
| "js_mul PInf (Fin b) = (if b = 0 then NaN else if 0 < b then PInf else NInf)"
| "js_mul NInf (Fin b) = (if b = 0 then NaN else if 0 < b then NInf else PInf)"
| "js_mul PInf PInf = PInf"
| "js_mul PInf NInf = NInf"
| "js_mul NInf PInf = NInf"
| "js_mul NInf NInf = PInf"

fun js_div :: "number \<Rightarrow> number \<Rightarrow> number" where
  "js_div NaN _ = NaN"
| "js_div _ NaN = NaN"
| "js_div (Fin a) (Fin b) =
     (if b = 0 then (if a = 0 then NaN else if 0 < a then PInf else NInf)
      else fl (a / b))"
| "js_div (Fin a) _ = Fin 0"
| "js_div PInf (Fin b) = (if 0 \<le> b then PInf else NInf)"
| "js_div NInf (Fin b) = (if 0 \<le> b then NInf else PInf)"
| "js_div _ _ = NaN"

fun Math_sqrt :: "number \<Rightarrow> number" where
  "Math_sqrt NaN = NaN"
| "Math_sqrt PInf = PInf"
| "Math_sqrt NInf = NaN"
| "Math_sqrt (Fin a) = (if a < 0 then NaN else fl (sqrt a))"

text \<open>
  ECMAScript fixes \<open>Math.asin\<close> on \<open>NaN\<close>, outside \<open>[-1, 1]\<close> and at zero, and leaves every
  other value to the implementation ("implementation-approximated"). That part is the
  parameter \<open>approx\<close>.
\<close>

fun Math_asin :: "(real \<Rightarrow> real) \<Rightarrow> number \<Rightarrow> number" where
  "Math_asin approx (Fin a) =
     (if a < - 1 \<or> 1 < a then NaN else if a = 0 then Fin 0 else Fin (approx a))"
| "Math_asin approx _ = NaN"

text \<open>\<open>Math.PI\<close>, the binary64 value nearest to \<open>\<pi>\<close>: \<open>0x400921FB54442D18\<close>.\<close>

definition Math_PI :: number where
  "Math_PI = Fin (7074237752028440 / 2 ^ 51)"

subsection \<open>Comparison\<close>

fun js_lt :: "number \<Rightarrow> number \<Rightarrow> bool" where
  "js_lt NaN _ = False"
| "js_lt _ NaN = False"
| "js_lt (Fin a) (Fin b) = (a < b)"
| "js_lt _ NInf = False"
| "js_lt NInf _ = True"
| "js_lt PInf _ = False"
| "js_lt _ PInf = True"

definition js_gt :: "number \<Rightarrow> number \<Rightarrow> bool" where
  "js_gt a b = js_lt b a"

text \<open>\<open>a >= b\<close> is false when an operand is \<open>NaN\<close>, and the negation of \<open>a < b\<close> otherwise.\<close>

definition js_ge :: "number \<Rightarrow> number \<Rightarrow> bool" where
  "js_ge a b = (a \<noteq> NaN \<and> b \<noteq> NaN \<and> \<not> js_lt a b)"

definition js_le :: "number \<Rightarrow> number \<Rightarrow> bool" where
  "js_le a b = js_ge b a"

section \<open>The geometry calculation\<close>

record geometry =
  pivotToSpindle :: number
  innerNull :: number
  outerNull :: number
  effectiveLength :: number
  offsetAngleDeg :: number
  overhang :: number
  linearOffset :: number

text \<open>The four \<^verbatim>\<open>throw new Error(...)\<close> of \<^verbatim>\<open>calculateGeometry\<close>, in source order.\<close>

datatype geometry_error =
  PivotNotPositive | NullsNotPositive | InnerNotSmaller | GeometryImpossible

definition calculateGeometry ::
  "(real \<Rightarrow> real) \<Rightarrow> number \<Rightarrow> number \<Rightarrow> number \<Rightarrow> geometry_error + geometry" where
  "calculateGeometry approx p inn out =
     (if \<not> js_gt p (Fin 0) then Inl PivotNotPositive
      else if \<not> (js_gt inn (Fin 0) \<and> js_gt out (Fin 0)) then Inl NullsNotPositive
      else if js_ge inn out then Inl InnerNotSmaller
      else
        let rProduct = js_mul inn out;
            el = Math_sqrt (js_add (js_mul p p) rProduct);
            lo = js_mul (Fin (1 / 2)) (js_add inn out)
        in if js_gt lo el then Inl GeometryImpossible
           else Inr \<lparr> pivotToSpindle = p,
                      innerNull = inn,
                      outerNull = out,
                      effectiveLength = el,
                      offsetAngleDeg =
                        js_div (js_mul (Math_asin approx (js_div lo el)) (Fin 180)) Math_PI,
                      overhang = js_sub el p,
                      linearOffset = lo \<rparr>)"

section \<open>The command line\<close>

text \<open>
  Strings are byte strings: the \<open>o\<close> with diaeresis of the scheme names is written as its
  two UTF-8 bytes. \<open>parseFloat\<close>, the conversion of a Number to a string in a template
  literal and \<open>toFixed\<close> are functions of the runtime; they are the fields of \<open>runtime\<close>,
  next to the implementation's approximation of the arc sine.
\<close>

record runtime =
  asin_approx :: "real \<Rightarrow> real"
  parseFloat :: "string \<Rightarrow> number"
  toString :: "number \<Rightarrow> string"
  toFixed :: "number \<Rightarrow> nat \<Rightarrow> string"

definition js_lit :: "real \<Rightarrow> number" where
  "js_lit x = fl x"

definition SCHEMES :: "(string \<times> number \<times> number) list" where
  "SCHEMES =
    [(''L'' @ [CHR 0xC3, CHR 0xB6] @ ''fgren A / Baerwald'', js_lit 66, js_lit (1209 / 10)),
     (''L'' @ [CHR 0xC3, CHR 0xB6] @ ''fgren B'', js_lit (703 / 10), js_lit (1166 / 10)),
     (''Stevenson'', js_lit 60, js_lit 117),
     (''Rega (factory)'', js_lit 60, js_lit 120),
     (''Technics (JIS-based)'', js_lit 60, js_lit 116)]"

definition formatGeometry :: "runtime \<Rightarrow> geometry \<Rightarrow> string" where
  "formatGeometry rt v =
     ''Pivot-to-spindle:  '' @ toFixed rt (pivotToSpindle v) 2 @ '' mm'' @ [CHR 10] @
     ''Null points:       '' @ toFixed rt (innerNull v) 2 @ '' mm / '' @
        toFixed rt (outerNull v) 2 @ '' mm'' @ [CHR 10] @
     ''Effective length:  '' @ toFixed rt (effectiveLength v) 2 @ '' mm'' @ [CHR 10] @
     ''Offset angle:      '' @ toFixed rt (offsetAngleDeg v) 3 @ '' deg'' @ [CHR 10] @
     ''Overhang:          '' @ toFixed rt (overhang v) 3 @ '' mm'' @ [CHR 10] @
     ''Linear offset:     '' @ toFixed rt (linearOffset v) 3 @ '' mm''"

record args =
  argPivotToSpindle :: "number option"
  scheme :: "string option"
  nulls :: "(number \<times> number) option"
  listSchemes :: bool

text \<open>The \<^verbatim>\<open>throw new Error(...)\<close> of \<^verbatim>\<open>parseArgs\<close>.\<close>

datatype usage_error =
  ChooseOnlyOne | SchemeRequiresValue | NullsRequireNumeric | UnknownFlag string
  | PivotAlreadyProvided | PivotNotNumeric

fun usage_message :: "usage_error \<Rightarrow> string" where
  "usage_message ChooseOnlyOne = ''Choose only one of --scheme or --nulls.''"
| "usage_message SchemeRequiresValue = ''--scheme requires a value.''"
| "usage_message NullsRequireNumeric = ''--nulls requires two numeric values.''"
| "usage_message (UnknownFlag token) = ''Unknown flag: '' @ token"
| "usage_message PivotAlreadyProvided = ''Pivot-to-spindle distance already provided.''"
| "usage_message PivotNotNumeric = ''Pivot-to-spindle distance must be numeric.''"

fun geometry_message :: "geometry_error \<Rightarrow> string" where
  "geometry_message PivotNotPositive = ''Pivot-to-spindle distance must be positive.''"
| "geometry_message NullsNotPositive = ''Null points must be positive.''"
| "geometry_message InnerNotSmaller = ''Inner null must be smaller than outer null.''"
| "geometry_message GeometryImpossible =
     ''Geometry impossible: linear offset exceeds effective length.''"

text \<open>
  \<^verbatim>\<open>args.scheme || args.nulls\<close>: a string is truthy when it is not empty, an array always,
  \<^verbatim>\<open>null\<close> never.
\<close>

definition scheme_or_nulls :: "args \<Rightarrow> bool" where
  "scheme_or_nulls a =
     ((case scheme a of None \<Rightarrow> False | Some s \<Rightarrow> s \<noteq> []) \<or> nulls a \<noteq> None)"

text \<open>
  \<^verbatim>\<open>parseFloat(rest.shift())\<close>: \<^verbatim>\<open>shift\<close> on an empty array gives \<^verbatim>\<open>undefined\<close>, which
  \<open>parseFloat\<close> turns into \<open>NaN\<close>.
\<close>

fun parseFloat_shift :: "runtime \<Rightarrow> string list \<Rightarrow> number" where
  "parseFloat_shift rt [] = NaN"
| "parseFloat_shift rt (t # ts) = parseFloat rt t"

text \<open>The \<^verbatim>\<open>while (rest.length > 0)\<close> loop of \<^verbatim>\<open>parseArgs\<close>, on the tokens still to read.\<close>

function parseArgs_loop :: "runtime \<Rightarrow> args \<Rightarrow> string list \<Rightarrow> usage_error + args" where
  "parseArgs_loop rt a [] = Inr a"
| "parseArgs_loop rt a (token # rest) =
     (if token = ''--scheme'' then
        (if scheme_or_nulls a then Inl ChooseOnlyOne
         else (case rest of
                 [] \<Rightarrow> Inl SchemeRequiresValue
               | name # rest' \<Rightarrow>
                   if name = [] then Inl SchemeRequiresValue
                   else parseArgs_loop rt (a\<lparr>scheme := Some name\<rparr>) rest'))
      else if token = ''--nulls'' then
        (if scheme_or_nulls a then Inl ChooseOnlyOne
         else
           let inner = parseFloat_shift rt rest;
               outer = parseFloat_shift rt (tl rest)
           in if \<not> isFinite inner \<or> \<not> isFinite outer then Inl NullsRequireNumeric
              else parseArgs_loop rt (a\<lparr>nulls := Some (inner, outer)\<rparr>) (tl (tl rest)))
      else if token = ''--list-schemes'' then
        parseArgs_loop rt (a\<lparr>listSchemes := True\<rparr>) rest
      else
        (if take 2 token = ''--'' then Inl (UnknownFlag token)
         else if argPivotToSpindle a \<noteq> None then Inl PivotAlreadyProvided
         else
           let len = parseFloat rt token
           in if \<not> isFinite len then Inl PivotNotNumeric
              else parseArgs_loop rt (a\<lparr>argPivotToSpindle := Some len\<rparr>) rest))"
  by pat_completeness auto
termination
  by (relation "measure (\<lambda>(rt, a, ts). length ts)") auto

definition parseArgs :: "runtime \<Rightarrow> string list \<Rightarrow> usage_error + args" where
  "parseArgs rt argv =
     parseArgs_loop rt
       \<lparr> argPivotToSpindle = None, scheme = None, nulls = None, listSchemes = False \<rparr> argv"

text \<open>
  What a run of the program shows: the lines written to the two streams, in order, and
  the exit code.
\<close>

datatype printed = Stdout string | Stderr string

type_synonym run = "printed list \<times> nat"

text \<open>
  \<^verbatim>\<open>main\<close> up to its call of \<^verbatim>\<open>calculateGeometry\<close>: either the run ends before the call
  (\<open>Inl\<close>), or the call is made with the three arguments returned (\<open>Inr\<close>).
\<close>

definition main_resolve :: "runtime \<Rightarrow> string list \<Rightarrow> run + (number \<times> number \<times> number)" where
  "main_resolve rt argv =
     (case parseArgs rt argv of
        Inl err \<Rightarrow> Inl ([Stderr (''error: '' @ usage_message err)], 1)
      | Inr a \<Rightarrow>
          if listSchemes a then
            Inl (map (\<lambda>(name, inner, outer).
                        Stdout (name @ '': '' @ toString rt inner @ '' mm / '' @
                                toString rt outer @ '' mm'')) SCHEMES, 0)
          else
            (case argPivotToSpindle a of
               None \<Rightarrow>
                 Inl ([Stderr (''error: pivot-to-spindle distance is required unless '' @
                               ''--list-schemes is used'')], 1)
             | Some p \<Rightarrow>
                 (case nulls a of
                    Some (inner, outer) \<Rightarrow> Inr (p, inner, outer)
                  | None \<Rightarrow>
                      (case scheme a of
                         None \<Rightarrow> Inl ([Stderr ''error: choose --scheme or provide --nulls''], 1)
                       | Some s \<Rightarrow>
                           if s = [] then
                             Inl ([Stderr ''error: choose --scheme or provide --nulls''], 1)
                           else
                             (case map_of SCHEMES s of
                                None \<Rightarrow>
                                  Inl ([Stderr (''error: unknown scheme '' @ [CHR 0x27] @ s @
                                                [CHR 0x27])], 1)
                              | Some (inner, outer) \<Rightarrow> Inr (p, inner, outer))))))"

definition main :: "runtime \<Rightarrow> string list \<Rightarrow> run" where
  "main rt argv =
     (case main_resolve rt argv of
        Inl r \<Rightarrow> r
      | Inr (p, inner, outer) \<Rightarrow>
          (case calculateGeometry (asin_approx rt) p inner outer of
             Inr g \<Rightarrow> ([Stdout (formatGeometry rt g)], 0)
           | Inl err \<Rightarrow> ([Stderr (''error: '' @ geometry_message err)], 1)))"

text \<open>
  Two tokens next to each other, in this order, on a command line.
\<close>

fun adjacent :: "'a \<Rightarrow> 'a \<Rightarrow> 'a list \<Rightarrow> bool" where
  "adjacent x y (a # b # rest) = ((a = x \<and> b = y) \<or> adjacent x y (b # rest))"
| "adjacent x y rest = False"

text \<open>
  The command lines on which the token \<^verbatim>\<open>--nulls\<close> is no flag but the value of
  \<^verbatim>\<open>--scheme\<close>: there is one \<^verbatim>\<open>--scheme\<close> token, one \<^verbatim>\<open>--nulls\<close> token, and the second
  comes directly after the first, where \<^verbatim>\<open>rest.shift()\<close> takes it as the name of the scheme.
  Such a command line names a scheme and supplies no pair of null points.
\<close>

definition nulls_is_scheme_name :: "string list \<Rightarrow> bool" where
  "nulls_is_scheme_name argv =
     (count_list argv ''--scheme'' = 1 \<and> count_list argv ''--nulls'' = 1 \<and>
      adjacent ''--scheme'' ''--nulls'' argv)"

section \<open>Calls in a running process\<close>

text \<open>
  The functions of the module run in one process, one call after the other. What a call
  can leave behind for a later one is what the code writes outside its own local
  variables. The module has one top-level binding besides its functions, the constant
  \<^verbatim>\<open>SCHEMES\<close>, which no function assigns to or modifies; \<^verbatim>\<open>parseArgs\<close> works on a copy of
  its argument (\<^verbatim>\<open>[...argv]\<close>) and on a fresh \<^verbatim>\<open>args\<close> object; the one effect in the file is
  that \<^verbatim>\<open>main\<close> writes lines with \<^verbatim>\<open>console.log\<close> and \<^verbatim>\<open>console.error\<close>. The state of the
  process is therefore the list of lines written so far.
\<close>

record process_state =
  console :: "printed list"

text \<open>A call of one of the four functions of the module, and what it gives back.\<close>

datatype invocation =
    CalculateGeometry number number number
  | FormatGeometry geometry
  | ParseArgs "string list"
  | Main "string list"

datatype outcome =
    Geometry "geometry_error + geometry"
  | Formatted string
  | Parsed "usage_error + args"
  | Exit nat

text \<open>
  A call takes the state of the process and returns its outcome with the state after it.
  The body of \<^verbatim>\<open>calculateGeometry\<close> declares five constants of its own, throws or returns a
  new object, and calls nothing but \<^verbatim>\<open>Math.sqrt\<close> and \<^verbatim>\<open>Math.asin\<close>: it hands the state on as
  it got it. \<^verbatim>\<open>main\<close> appends its lines to the console. (\<^verbatim>\<open>process.exit\<close> ends the process;
  here calls may follow it all the same, which only adds histories.)
\<close>

fun invoke :: "runtime \<Rightarrow> process_state \<Rightarrow> invocation \<Rightarrow> outcome \<times> process_state" where
  "invoke rt s (CalculateGeometry p inn out) =
     (Geometry (calculateGeometry (asin_approx rt) p inn out), s)"
| "invoke rt s (FormatGeometry g) = (Formatted (formatGeometry rt g), s)"
| "invoke rt s (ParseArgs argv) = (Parsed (parseArgs rt argv), s)"
| "invoke rt s (Main argv) =
     (Exit (snd (main rt argv)), s\<lparr>console := console s @ fst (main rt argv)\<rparr>)"

text \<open>
  A sequence of calls, one after the other: the outcomes in order, and the state of the
  process at the end.
\<close>

fun run :: "runtime \<Rightarrow> process_state \<Rightarrow> invocation list \<Rightarrow> outcome list \<times> process_state" where
  "run rt s [] = ([], s)"
| "run rt s (c # cs) =
     (case invoke rt s c of
        (r, s') \<Rightarrow> (case run rt s' cs of (rs, s'') \<Rightarrow> (r # rs, s'')))"

section \<open>Rounding: the exponent\<close>

lemma powr_powi2: "(2::real) powr (of_int k) = 2 powi k"
  by (simp add: powr_real_of_int')

lemma floor_log2_eq:
  assumes "2 powi e \<le> y" "y < 2 powi (e + 1)"
  shows "\<lfloor>log 2 y\<rfloor> = e"
proof -
  have pos: "0 < y" using assms(1) by (smt (verit) zero_less_power_int)
  have "2 powr (of_int e) \<le> y" "y < 2 powr (of_int (e + 1))"
    using assms unfolding powr_powi2 by auto
  then show ?thesis using pos floor_log_eq_powr_iff [of y 2 e] by simp
qed

lemma floor_log2_bounds:
  assumes "0 < y"
  shows "2 powi \<lfloor>log 2 y\<rfloor> \<le> y" "y < 2 powi (\<lfloor>log 2 y\<rfloor> + 1)"
proof -
  have "2 powr (of_int \<lfloor>log 2 y\<rfloor>) \<le> y \<and> y < 2 powr (of_int (\<lfloor>log 2 y\<rfloor> + 1))"
    using floor_log_eq_powr_iff [of y 2 "\<lfloor>log 2 y\<rfloor>"] assms by simp
  then show "2 powi \<lfloor>log 2 y\<rfloor> \<le> y" "y < 2 powi (\<lfloor>log 2 y\<rfloor> + 1)"
    unfolding powr_powi2 by auto
qed

lemma expo_ge: "- 1022 \<le> expo x"
  by (simp add: expo_def)

lemma expo_upper:
  assumes "x \<noteq> 0"
  shows "\<bar>x\<bar> < 2 powi (expo x + 1)"
proof -
  have "\<bar>x\<bar> < 2 powi (\<lfloor>log 2 \<bar>x\<bar>\<rfloor> + 1)"
    using floor_log2_bounds(2) [of "\<bar>x\<bar>"] assms by simp
  also have "\<dots> \<le> 2 powi (expo x + 1)"
    by (rule power_int_increasing) (simp_all add: expo_def)
  finally show ?thesis .
qed

lemma expo_lower:
  assumes "x \<noteq> 0" "- 1022 < expo x"
  shows "2 powi (expo x) \<le> \<bar>x\<bar>"
proof -
  have "expo x = \<lfloor>log 2 \<bar>x\<bar>\<rfloor>" using assms(2) by (simp add: expo_def max_def split: if_splits)
  then show ?thesis using floor_log2_bounds(1) [of "\<bar>x\<bar>"] assms(1) by simp
qed

lemma expo_normal:
  assumes "2 powi e \<le> \<bar>x\<bar>" "\<bar>x\<bar> < 2 powi (e + 1)" "- 1022 \<le> e"
  shows "expo x = e"
  using floor_log2_eq [OF assms(1,2)] assms(3) by (simp add: expo_def)

lemma expo_subnormal:
  assumes "x \<noteq> 0" "\<bar>x\<bar> < 2 powi (- 1022)"
  shows "expo x = - 1022"
proof -
  have "2 powi \<lfloor>log 2 \<bar>x\<bar>\<rfloor> \<le> \<bar>x\<bar>" using floor_log2_bounds(1) [of "\<bar>x\<bar>"] assms(1) by simp
  then have "(2::real) powi \<lfloor>log 2 \<bar>x\<bar>\<rfloor> < 2 powi (- 1022)" using assms(2) by linarith
  then have "\<lfloor>log 2 \<bar>x\<bar>\<rfloor> < - 1022"
    by (smt (verit) power_int_increasing)
  then show ?thesis by (simp add: expo_def)
qed

lemma expo_mono:
  assumes "0 < x" "x \<le> y"
  shows "expo x \<le> expo y"
proof -
  have "log 2 x \<le> log 2 y" using assms by simp
  then have "\<lfloor>log 2 x\<rfloor> \<le> \<lfloor>log 2 y\<rfloor>" by (rule floor_mono)
  then show ?thesis using assms by (simp add: expo_def)
qed

lemma ulp_pos: "0 < ulp x"
  by (simp add: ulp_def)

subsection \<open>Rounding to an integer\<close>

lemma rne_of_int: "rne (of_int n) = n"
  by (simp add: rne_def)

lemma rne_floor_le: "\<lfloor>m\<rfloor> \<le> rne m"
  by (simp add: rne_def Let_def)

lemma rne_le_ceiling: "rne m \<le> \<lceil>m\<rceil>"
  unfolding rne_def Let_def by (auto simp: ceiling_altdef)

lemma rne_error: "\<bar>of_int (rne m) - m\<bar> \<le> 1 / 2"
  unfolding rne_def Let_def by (auto; linarith)

lemma rne_mono:
  assumes "x \<le> y"
  shows "rne x \<le> rne y"
proof (cases "\<lfloor>x\<rfloor> = \<lfloor>y\<rfloor>")
  case True
  then show ?thesis using assms unfolding rne_def Let_def by auto
next
  case False
  then have "\<lfloor>x\<rfloor> + 1 \<le> \<lfloor>y\<rfloor>" using floor_mono [OF assms] by linarith
  moreover have "rne x \<le> \<lfloor>x\<rfloor> + 1" unfolding rne_def Let_def by auto
  ultimately show ?thesis using rne_floor_le [of y] by linarith
qed

lemma rne_ge_int: "of_int n \<le> m \<Longrightarrow> n \<le> rne m"
  using rne_mono [of "of_int n" m] by (simp add: rne_of_int)

lemma rne_le_int: "m \<le> of_int n \<Longrightarrow> rne m \<le> n"
  using rne_mono [of m "of_int n"] by (simp add: rne_of_int)

subsection \<open>Rounding to the grid\<close>

lemma rnd_0: "rnd 0 = 0"
  by (simp add: rnd_def rne_def)

lemma rnd_nonneg: "0 \<le> x \<Longrightarrow> 0 \<le> rnd x"
  unfolding rnd_def using rne_ge_int [of 0 "x / ulp x"] ulp_pos [of x] by simp

lemma rnd_error: "\<bar>rnd x - x\<bar> \<le> ulp x / 2"
proof -
  define u where "u = ulp x"
  define k where "k = rne (x / u)"
  have u: "0 < u" by (simp add: u_def ulp_pos)
  have "rnd x - x = (of_int k - x / u) * u"
    using u by (simp add: rnd_def u_def k_def field_simps)
  then have "\<bar>rnd x - x\<bar> = \<bar>of_int k - x / u\<bar> * u"
    using u by (simp add: abs_mult)
  also have "\<dots> \<le> 1 / 2 * u"
    using rne_error [of "x / u"] u unfolding k_def by (intro mult_right_mono) auto
  finally show ?thesis by (simp add: u_def)
qed

lemma ulp_powi: "ulp x = 2 powi (expo x - 52)" by (simp add: ulp_def)

lemma pow2_add: "(2::real) powi a * 2 powi b = 2 powi (a + b)"
  by (simp add: power_int_add)

lemma ulp_53: "2 powi 53 * ulp x = 2 powi (expo x + 1)"
  unfolding ulp_powi pow2_add by (rule arg_cong [where f = "\<lambda>k. 2 powi k"]) simp

lemma ulp_52: "2 powi 52 * ulp x = 2 powi (expo x)"
  unfolding ulp_powi pow2_add by (rule arg_cong [where f = "\<lambda>k. 2 powi k"]) simp

lemma rnd_upper:
  assumes "0 < x"
  shows "rnd x \<le> 2 powi (expo x + 1)"
proof -
  have "x / ulp x \<le> 2 powi 53"
  proof -
    have "x \<le> 2 powi (expo x + 1)" using expo_upper [of x] assms by simp
    also have "\<dots> = 2 powi 53 * ulp x" by (simp only: ulp_53)
    finally show ?thesis using ulp_pos [of x] by (simp add: field_simps)
  qed
  then have "rne (x / ulp x) \<le> 2 ^ 53"
    using rne_le_int [of "x / ulp x" "2 ^ 53"] by simp
  then have "of_int (rne (x / ulp x)) * ulp x \<le> 2 powi 53 * ulp x"
    using ulp_pos [of x] by (intro mult_right_mono) (auto simp: of_int_le_iff [symmetric] simp del: of_int_le_iff)
  also have "\<dots> = 2 powi (expo x + 1)" by (simp only: ulp_53)
  finally show ?thesis by (simp add: rnd_def)
qed

lemma rnd_lower:
  assumes "0 < x" "- 1022 < expo x"
  shows "2 powi (expo x) \<le> rnd x"
proof -
  have "2 powi 52 \<le> x / ulp x"
  proof -
    have "2 powi 52 * ulp x = 2 powi (expo x)" by (simp only: ulp_52)
    also have "\<dots> \<le> x" using expo_lower [of x] assms by simp
    finally show ?thesis using ulp_pos [of x] by (simp add: field_simps)
  qed
  then have "2 ^ 52 \<le> rne (x / ulp x)"
    using rne_ge_int [of "2 ^ 52" "x / ulp x"] by simp
  then have "2 powi 52 * ulp x \<le> of_int (rne (x / ulp x)) * ulp x"
    using ulp_pos [of x] by (intro mult_right_mono) (auto simp: of_int_le_iff [symmetric] simp del: of_int_le_iff)
  moreover have "2 powi 52 * ulp x = 2 powi (expo x)" by (simp only: ulp_52)
  ultimately show ?thesis by (simp add: rnd_def)
qed

lemma rnd_mono:
  assumes "0 \<le> x" "x \<le> y"
  shows "rnd x \<le> rnd y"
proof (cases "x = 0")
  case True
  then show ?thesis using rnd_nonneg [of y] assms by (simp add: rnd_0)
next
  case False
  then have x: "0 < x" and y: "0 < y" using assms by auto
  have le: "expo x \<le> expo y" using expo_mono [OF x assms(2)] .
  show ?thesis
  proof (cases "expo x = expo y")
    case True
    then have u: "ulp x = ulp y" by (simp add: ulp_def)
    have "x / ulp y \<le> y / ulp y" using assms(2) ulp_pos [of y] by (simp add: divide_right_mono)
    then have "rne (x / ulp y) \<le> rne (y / ulp y)" by (rule rne_mono)
    then show ?thesis unfolding rnd_def u using ulp_pos [of y]
      by (intro mult_right_mono) auto
  next
    case False
    then have lt: "expo x + 1 \<le> expo y" using le by simp
    then have "- 1022 < expo y" using expo_ge [of x] by linarith
    then have "2 powi (expo y) \<le> rnd y" using rnd_lower [OF y] by simp
    moreover have "rnd x \<le> 2 powi (expo x + 1)" using rnd_upper [OF x] .
    moreover have "(2::real) powi (expo x + 1) \<le> 2 powi (expo y)"
      using lt by (intro power_int_increasing) auto
    ultimately show ?thesis by linarith
  qed
qed

text \<open>Dyadic rationals with at most 53 significant bits are on the grid.\<close>

lemma rnd_dyadic:
  assumes "x = of_int n * 2 powi k" "\<bar>n\<bar> < 2 ^ 53" "- 1074 \<le> k"
  shows "rnd x = x"
proof (cases "n = 0")
  case True
  then show ?thesis using assms by (simp add: rnd_0)
next
  case False
  then have x0: "x \<noteq> 0" using assms(1) by simp
  have "\<bar>x\<bar> = of_int \<bar>n\<bar> * 2 powi k" using assms(1) by (simp add: abs_mult)
  also have "\<dots> < 2 ^ 53 * 2 powi k"
    using assms(2) by (intro mult_strict_right_mono) (auto simp: of_int_less_iff [symmetric] simp del: of_int_less_iff)
  also have "\<dots> = 2 powi (53 + k)" by (simp add: power_int_add)
  finally have ub: "\<bar>x\<bar> < 2 powi (53 + k)" .
  have "expo x - 52 \<le> k"
  proof (cases "- 1022 < expo x")
    case True
    then have "2 powi (expo x) \<le> \<bar>x\<bar>" using expo_lower [OF x0] by simp
    then have "(2::real) powi (expo x) < 2 powi (53 + k)" using ub by linarith
    then have "expo x < 53 + k" by (smt (verit) power_int_increasing)
    then show ?thesis by simp
  next
    case False
    then have "expo x = - 1022" using expo_ge [of x] by linarith
    then show ?thesis using assms(3) by simp
  qed
  then obtain j where j: "k = (expo x - 52) + int j"
    by (metis add.commute diff_add_cancel nonneg_int_cases diff_ge_0_iff_ge)
  define u where "u = ulp x"
  have u: "0 < u" by (simp add: u_def ulp_pos)
  have "2 powi k = 2 powi (int j) * u"
    by (simp only: u_def ulp_powi j pow2_add add.commute)
  then have xe: "x = of_int (n * 2 ^ j) * u" using assms(1) by simp
  then have "x / u = of_int (n * 2 ^ j)" using u by simp
  then have "rne (x / u) = n * 2 ^ j" by (simp only: rne_of_int)
  then have "rnd x = of_int (n * 2 ^ j) * u" by (simp add: rnd_def u_def)
  then show ?thesis using xe by simp
qed

lemma fl_cases_nonneg:
  assumes "0 \<le> x"
  shows "(fl x = PInf \<and> 2 ^ 1024 \<le> rnd x) \<or> (fl x = Fin (rnd x) \<and> rnd x < 2 ^ 1024)"
  using rnd_nonneg [OF assms] by (auto simp: fl_def Let_def)

lemma fl_dyadic:
  assumes "x = of_int n * 2 powi k" "\<bar>n\<bar> < 2 ^ 53" "- 1074 \<le> k" "k \<le> 971"
  shows "fl x = Fin x"
proof -
  have r: "rnd x = x" using rnd_dyadic [OF assms(1-3)] .
  have "\<bar>x\<bar> = of_int \<bar>n\<bar> * 2 powi k" using assms(1) by (simp add: abs_mult)
  also have "\<dots> < 2 ^ 53 * 2 powi k"
    using assms(2) by (intro mult_strict_right_mono) (auto simp: of_int_less_iff [symmetric] simp del: of_int_less_iff)
  also have "\<dots> \<le> 2 ^ 53 * 2 powi 971"
    using assms(4) by (intro mult_left_mono power_int_increasing) auto
  also have "\<dots> = 2 ^ 1024" by simp
  finally have "\<bar>x\<bar> < 2 ^ 1024" .
  then show ?thesis unfolding fl_def Let_def r by auto
qed

lemma fl_int: "\<bar>n\<bar> < 2 ^ 53 \<Longrightarrow> fl (of_int n) = Fin (of_int n)"
  using fl_dyadic [of "of_int n" n 0] by simp

lemma fl_frac:
  assumes "\<bar>n\<bar> < 2 ^ 53" "k \<le> 1074"
  shows "fl (of_int n / 2 ^ k) = Fin (of_int n / 2 ^ k)"
proof -
  have "of_int n / 2 ^ k = of_int n * (2::real) powi (- int k)"
    by (simp add: power_int_minus field_simps)
  then show ?thesis using fl_dyadic [of "of_int n / 2 ^ k" n "- int k"] assms by simp
qed

lemma fl_mono:
  assumes "0 \<le> x" "x \<le> y"
  shows "js_le (fl x) (fl y)"
  using fl_cases_nonneg [of x] fl_cases_nonneg [of y] rnd_mono [OF assms] assms
  by (auto simp: js_le_def js_ge_def)

lemma fl_ge:
  assumes "fl a = Fin a" "0 \<le> a" "a \<le> x"
  shows "js_le (Fin a) (fl x)"
  using fl_mono [OF assms(2,3)] assms(1) by simp

lemma fl_le:
  assumes "fl b = Fin b" "0 \<le> x" "x \<le> b"
  shows "js_le (fl x) (Fin b)"
  using fl_mono [OF assms(2,3)] assms(1) by simp

lemma sqrt16: "sqrt 16 = 4" by (rule real_sqrt_unique) simp_all

section \<open>The geometry calculation: results and failures\<close>

text \<open>
  C1. Whenever the three arguments pass every check (each strictly positive, the inner
  null below the outer one, the linear offset not above the effective length),
  \<^verbatim>\<open>calculateGeometry\<close> returns a record whose effective length is
  \<open>sqrt(p * p + inner * outer)\<close>, whose linear offset is \<open>0.5 * (inner + outer)\<close>, whose
  offset angle is \<open>asin(linearOffset / effectiveLength) * 180 / PI\<close> and whose overhang is
  \<open>effectiveLength - p\<close>, each operation being the binary64 one.
\<close>

theorem calculateGeometry_valid:
  assumes "js_gt p (Fin 0)" and "js_gt inn (Fin 0)" and "js_gt out (Fin 0)"
    and "js_lt inn out"
    and "js_le (js_mul (Fin (1 / 2)) (js_add inn out))
               (Math_sqrt (js_add (js_mul p p) (js_mul inn out)))"
  shows "\<exists>g. calculateGeometry approx p inn out = Inr g \<and>
    effectiveLength g = Math_sqrt (js_add (js_mul p p) (js_mul inn out)) \<and>
    linearOffset g = js_mul (Fin (1 / 2)) (js_add inn out) \<and>
    offsetAngleDeg g =
      js_div (js_mul (Math_asin approx (js_div (linearOffset g) (effectiveLength g))) (Fin 180))
             Math_PI \<and>
    overhang g = js_sub (effectiveLength g) p"
proof -
  have "\<not> js_ge inn out" using assms(4) by (cases inn; cases out) (auto simp: js_ge_def)
  moreover have "\<not> js_gt (js_mul (Fin (1 / 2)) (js_add inn out))
                        (Math_sqrt (js_add (js_mul p p) (js_mul inn out)))"
    using assms(5) by (simp add: js_le_def js_ge_def js_gt_def)
  ultimately show ?thesis using assms(1-3) by (simp add: calculateGeometry_def Let_def)
qed

theorem calculateGeometry_valid_witness:
  "js_gt (Fin 2) (Fin 0) \<and> js_gt (Fin 3) (Fin 0) \<and> js_gt (Fin 4) (Fin 0) \<and> js_lt (Fin 3) (Fin 4) \<and>
   (\<forall>approx. \<exists>g. calculateGeometry approx (Fin 2) (Fin 3) (Fin 4) = Inr g \<and>
      effectiveLength g = Fin 4 \<and> linearOffset g = Fin (7 / 2) \<and> overhang g = Fin 2 \<and>
      offsetAngleDeg g = js_div (js_mul (Fin (approx (7 / 8))) (Fin 180)) Math_PI)"
proof -
  have e: "fl 4 = Fin 4" "fl 12 = Fin 12" "fl 16 = Fin 16" "fl 7 = Fin 7" "fl 2 = Fin 2"
    using fl_int [of 4] fl_int [of 12] fl_int [of 16] fl_int [of 7] fl_int [of 2] by simp_all
  have f: "fl (7 / 2) = Fin (7 / 2)" "fl (7 / 8) = Fin (7 / 8)"
    using fl_frac [of 7 1] fl_frac [of 7 3] by simp_all
  have h: "js_gt (Fin 2) (Fin 0)" "js_gt (Fin 3) (Fin 0)" "js_gt (Fin 4) (Fin 0)" "js_lt (Fin 3) (Fin 4)"
    by (simp_all add: js_gt_def)
  have l: "js_le (js_mul (Fin (1 / 2)) (js_add (Fin 3) (Fin 4)))
               (Math_sqrt (js_add (js_mul (Fin 2) (Fin 2)) (js_mul (Fin 3) (Fin 4))))"
    by (simp add: e f sqrt16 js_le_def js_ge_def)
  have "\<exists>g. calculateGeometry approx (Fin 2) (Fin 3) (Fin 4) = Inr g \<and>
      effectiveLength g = Fin 4 \<and> linearOffset g = Fin (7 / 2) \<and> overhang g = Fin 2 \<and>
      offsetAngleDeg g = js_div (js_mul (Fin (approx (7 / 8))) (Fin 180)) Math_PI" for approx
    using calculateGeometry_valid [OF h l, of approx]
    by (auto simp: e f sqrt16 js_sub_def)
  then show ?thesis using h by blast
qed

text \<open>
  C2. \<^verbatim>\<open>calculateGeometry\<close> fails exactly when the pivot-to-spindle distance is not
  strictly positive, or a null point is not strictly positive, or the inner null is at
  least the outer one, or the computed linear offset strictly exceeds the computed
  effective length; on every other input it returns a result.
\<close>

theorem calculateGeometry_fails_iff:
  "((\<exists>e. calculateGeometry approx p inn out = Inl e) \<longleftrightarrow>
      (\<not> js_gt p (Fin 0) \<or> \<not> js_gt inn (Fin 0) \<or> \<not> js_gt out (Fin 0) \<or> js_ge inn out \<or>
       js_gt (js_mul (Fin (1 / 2)) (js_add inn out))
             (Math_sqrt (js_add (js_mul p p) (js_mul inn out))))) \<and>
   ((\<exists>g. calculateGeometry approx p inn out = Inr g) \<longleftrightarrow>
      \<not> (\<not> js_gt p (Fin 0) \<or> \<not> js_gt inn (Fin 0) \<or> \<not> js_gt out (Fin 0) \<or> js_ge inn out \<or>
       js_gt (js_mul (Fin (1 / 2)) (js_add inn out))
             (Math_sqrt (js_add (js_mul p p) (js_mul inn out)))))"
  by (auto simp: calculateGeometry_def Let_def)

lemma sqrt25: "sqrt 25 = 5" by (rule real_sqrt_unique) simp_all

theorem calculateGeometry_fails_iff_witness:
  "(\<forall>approx. (\<exists>e. calculateGeometry approx (Fin (- 5)) (Fin 3) (Fin 4) = Inl e)) \<and>
   (\<forall>approx. (\<exists>e. calculateGeometry approx (Fin 2) (Fin 4) (Fin 3) = Inl e)) \<and>
   (\<forall>approx. (\<exists>e. calculateGeometry approx (Fin 3) (Fin 1) (Fin 16) = Inl e)) \<and>
   (\<forall>approx. (\<exists>g. calculateGeometry approx (Fin 2) (Fin 3) (Fin 4) = Inr g))"
proof -
  have e: "fl 4 = Fin 4" "fl 12 = Fin 12" "fl 16 = Fin 16" "fl 7 = Fin 7" "fl 9 = Fin 9"
    "fl 25 = Fin 25" "fl 5 = Fin 5" "fl 17 = Fin 17"
    using fl_int [of 4] fl_int [of 12] fl_int [of 16] fl_int [of 7] fl_int [of 9]
      fl_int [of 25] fl_int [of 5] fl_int [of 17] by simp_all
  have f: "fl (7 / 2) = Fin (7 / 2)" "fl (17 / 2) = Fin (17 / 2)"
    using fl_frac [of 7 1] fl_frac [of 17 1] by simp_all
  show ?thesis
    using calculateGeometry_fails_iff [of _ "Fin (- 5)" "Fin 3" "Fin 4"]
      calculateGeometry_fails_iff [of _ "Fin 2" "Fin 4" "Fin 3"]
      calculateGeometry_fails_iff [of _ "Fin 3" "Fin 1" "Fin 16"]
      calculateGeometry_fails_iff [of _ "Fin 2" "Fin 3" "Fin 4"]
    by (simp add: e f sqrt16 sqrt25 js_gt_def js_ge_def)
qed

text \<open>
  C9. A call in which one of the three arguments is \<open>NaN\<close> throws: the positivity guards
  are negated comparisons, which \<open>NaN\<close> fails, so no result record comes from a \<open>NaN\<close>.
\<close>

theorem calculateGeometry_rejects_NaN:
  "p = NaN \<or> inn = NaN \<or> out = NaN \<Longrightarrow> \<exists>e. calculateGeometry approx p inn out = Inl e"
  by (auto simp: calculateGeometry_def js_gt_def Let_def)

theorem calculateGeometry_rejects_NaN_witness:
  "\<forall>approx. (\<exists>e. calculateGeometry approx NaN (Fin 3) (Fin 4) = Inl e) \<and>
     (\<exists>e. calculateGeometry approx (Fin 2) NaN (Fin 4) = Inl e) \<and>
     (\<exists>e. calculateGeometry approx (Fin 2) (Fin 3) NaN = Inl e)"
  using calculateGeometry_rejects_NaN [of NaN "Fin 3" "Fin 4"]
    calculateGeometry_rejects_NaN [of "Fin 2" NaN "Fin 4"]
    calculateGeometry_rejects_NaN [of "Fin 2" "Fin 3" NaN]
  by simp





section \<open>The command line: listing and conflicting flags\<close>

text \<open>
  Once a scheme or a pair of null points is stored, every further token is read on its
  own: no later \<^verbatim>\<open>--scheme\<close> or \<^verbatim>\<open>--nulls\<close> token survives the parse.
\<close>

lemma parseArgs_loop_locked:
  "scheme_or_nulls a0 \<Longrightarrow> parseArgs_loop rt a0 rest = Inr a \<Longrightarrow>
   scheme a = scheme a0 \<and> nulls a = nulls a0 \<and> ''--scheme'' \<notin> set rest \<and> ''--nulls'' \<notin> set rest"
proof (induction rt a0 rest rule: parseArgs_loop.induct)
  case (1 rt a0)
  then show ?case by simp
next
  case (2 rt a0 token rest)
  show ?case
  proof (cases "token = ''--scheme'' \<or> token = ''--nulls''")
    case True
    then show ?thesis using "2.prems" by auto
  next
    case False
    note nf = this
    show ?thesis
    proof (cases "token = ''--list-schemes''")
      case True
      have "scheme_or_nulls (a0\<lparr>listSchemes := True\<rparr>)"
        using "2.prems"(1) by (simp add: scheme_or_nulls_def)
      moreover have "parseArgs_loop rt (a0\<lparr>listSchemes := True\<rparr>) rest = Inr a"
        using "2.prems"(2) True by simp
      ultimately show ?thesis using "2.IH"(3) nf True by auto
    next
      case False
      from "2.prems"(2) nf False
      have c: "take 2 token \<noteq> ''--''" "argPivotToSpindle a0 = None"
        "isFinite (parseFloat rt token)"
        "parseArgs_loop rt (a0\<lparr>argPivotToSpindle := Some (parseFloat rt token)\<rparr>) rest = Inr a"
        by (auto simp: Let_def split: if_splits)
      have "scheme_or_nulls (a0\<lparr>argPivotToSpindle := Some (parseFloat rt token)\<rparr>)"
        using "2.prems"(1) by (simp add: scheme_or_nulls_def)
      then show ?thesis using "2.IH"(4) [OF _ _ False _ _ refl] nf False c by auto
    qed
  qed
qed

lemma set_tl_tl:
  "x \<in> set rest \<Longrightarrow> x \<notin> set (tl (tl rest)) \<Longrightarrow>
   (rest \<noteq> [] \<and> x = hd rest) \<or> (tl rest \<noteq> [] \<and> x = hd (tl rest))"
  by (cases rest; cases "tl rest") auto

lemma parseFloat_shift_hd:
  "isFinite (parseFloat_shift rt ts) \<Longrightarrow> ts \<noteq> [] \<and> parseFloat_shift rt ts = parseFloat rt (hd ts)"
  by (cases ts) auto

lemma parseArgs_loop_both:
  "\<not> isFinite (parseFloat rt ''--scheme'') \<Longrightarrow> \<not> scheme_or_nulls a0 \<Longrightarrow>
   parseArgs_loop rt a0 rest = Inr a \<Longrightarrow>
   ''--scheme'' \<in> set rest \<Longrightarrow> ''--nulls'' \<in> set rest \<Longrightarrow>
   scheme a = Some ''--nulls'' \<and> nulls a = None"
proof (induction rt a0 rest rule: parseArgs_loop.induct)
  case (1 rt a0)
  then show ?case by simp
next
  case (2 rt a0 token rest)
  note pf = "2.prems"(1) and free = "2.prems"(2) and run = "2.prems"(3)
    and s = "2.prems"(4) and n = "2.prems"(5)
  have nulls0: "nulls a0 = None" using free by (cases "nulls a0") (auto simp: scheme_or_nulls_def)
  consider (scheme) "token = ''--scheme''" | (nulls) "token = ''--nulls''"
    | (list) "token = ''--list-schemes''"
    | (other) "token \<noteq> ''--scheme''" "token \<noteq> ''--nulls''" "token \<noteq> ''--list-schemes''"
    by blast
  then show ?case
  proof cases
    case scheme
    from run scheme free obtain name rest' where r: "rest = name # rest'" "name \<noteq> []"
      "parseArgs_loop rt (a0\<lparr>scheme := Some name\<rparr>) rest' = Inr a"
      by (auto split: list.splits if_splits)
    have "scheme_or_nulls (a0\<lparr>scheme := Some name\<rparr>)"
      using r(2) by (simp add: scheme_or_nulls_def)
    from parseArgs_loop_locked [OF this r(3)]
    have l: "scheme a = Some name" "nulls a = nulls a0" "''--nulls'' \<notin> set rest'" by simp_all
    have "name = ''--nulls''" using n l(3) r(1) scheme by auto
    then show ?thesis using l nulls0 by simp
  next
    case nulls
    from run nulls free have r: "isFinite (parseFloat_shift rt rest)"
      "isFinite (parseFloat_shift rt (tl rest))"
      "parseArgs_loop rt (a0\<lparr>nulls := Some (parseFloat_shift rt rest, parseFloat_shift rt (tl rest))\<rparr>)
         (tl (tl rest)) = Inr a"
      by (auto simp: Let_def split: if_splits)
    have "scheme_or_nulls (a0\<lparr>nulls := Some (parseFloat_shift rt rest, parseFloat_shift rt (tl rest))\<rparr>)"
      by (simp add: scheme_or_nulls_def)
    from parseArgs_loop_locked [OF this r(3)]
    have l: "''--scheme'' \<notin> set (tl (tl rest))" by simp
    have "''--scheme'' \<in> set rest" using s nulls by auto
    from set_tl_tl [OF this l] parseFloat_shift_hd [OF r(1)] parseFloat_shift_hd [OF r(2)] r(1,2) pf
    show ?thesis by auto
  next
    case list
    have "\<not> scheme_or_nulls (a0\<lparr>listSchemes := True\<rparr>)"
      using free by (simp add: scheme_or_nulls_def)
    moreover have "parseArgs_loop rt (a0\<lparr>listSchemes := True\<rparr>) rest = Inr a"
      using run list by simp
    moreover have "''--scheme'' \<in> set rest" "''--nulls'' \<in> set rest" using s n list by auto
    ultimately show ?thesis using "2.IH"(3) [OF _ _ list pf] list by simp
  next
    case other
    from run other
    have c: "take 2 token \<noteq> ''--''" "argPivotToSpindle a0 = None"
      "isFinite (parseFloat rt token)"
      "parseArgs_loop rt (a0\<lparr>argPivotToSpindle := Some (parseFloat rt token)\<rparr>) rest = Inr a"
      by (auto simp: Let_def split: if_splits)
    have "\<not> scheme_or_nulls (a0\<lparr>argPivotToSpindle := Some (parseFloat rt token)\<rparr>)"
      using free by (simp add: scheme_or_nulls_def)
    moreover have "''--scheme'' \<in> set rest" "''--nulls'' \<in> set rest" using s n other by auto
    ultimately show ?thesis using "2.IH"(4) [OF other _ _ refl _ pf] c by simp
  qed
qed

text \<open>
  What a successful parse says about the tokens: a flag once set stays set, a
  \<^verbatim>\<open>--list-schemes\<close> token sets the flag unless it is taken as a scheme name, a scheme
  and a pair of null points are never stored together, and a stored scheme name is the
  token after a \<^verbatim>\<open>--scheme\<close>.
\<close>

lemma parseArgs_loop_keeps_flag:
  "listSchemes a0 \<Longrightarrow> parseArgs_loop rt a0 rest = Inr a \<Longrightarrow> listSchemes a"
proof (induction rt a0 rest rule: parseArgs_loop.induct)
  case (1 rt a0)
  then show ?case by simp
next
  case (2 rt a0 token rest)
  consider (scheme) "token = ''--scheme''" | (nulls) "token = ''--nulls''"
    | (list) "token = ''--list-schemes''"
    | (other) "token \<noteq> ''--scheme''" "token \<noteq> ''--nulls''" "token \<noteq> ''--list-schemes''"
    by blast
  then show ?case
  proof cases
    case scheme
    from "2.prems"(2) scheme obtain name rest' where r: "\<not> scheme_or_nulls a0"
      "rest = name # rest'" "name \<noteq> []"
      "parseArgs_loop rt (a0\<lparr>scheme := Some name\<rparr>) rest' = Inr a"
      by (auto split: list.splits if_splits)
    show ?thesis using "2.IH"(1) [OF scheme r(1,2,3) _ r(4)] "2.prems"(1) by simp
  next
    case nulls
    from "2.prems"(2) nulls have r: "\<not> scheme_or_nulls a0"
      "\<not> (\<not> isFinite (parseFloat_shift rt rest) \<or> \<not> isFinite (parseFloat_shift rt (tl rest)))"
      "parseArgs_loop rt (a0\<lparr>nulls := Some (parseFloat_shift rt rest, parseFloat_shift rt (tl rest))\<rparr>)
         (tl (tl rest)) = Inr a"
      by (auto simp: Let_def split: if_splits)
    have ns: "token \<noteq> ''--scheme''" using nulls by simp
    show ?thesis
      using "2.IH"(2) [OF ns nulls r(1) refl refl r(2) _ r(3)] "2.prems"(1) by simp
  next
    case list
    have ns: "token \<noteq> ''--scheme''" "token \<noteq> ''--nulls''" using list by simp_all
    have "parseArgs_loop rt (a0\<lparr>listSchemes := True\<rparr>) rest = Inr a"
      using "2.prems"(2) list by simp
    then show ?thesis using "2.IH"(3) [OF ns list] by simp
  next
    case other
    from "2.prems"(2) other
    have c: "take 2 token \<noteq> ''--''" "argPivotToSpindle a0 = None"
      "isFinite (parseFloat rt token)"
      "parseArgs_loop rt (a0\<lparr>argPivotToSpindle := Some (parseFloat rt token)\<rparr>) rest = Inr a"
      by (auto simp: Let_def split: if_splits)
    show ?thesis using "2.IH"(4) [OF other _ _ refl _ _ c(4)] c "2.prems"(1) by simp
  qed
qed

lemma parseArgs_loop_list_token:
  "\<not> isFinite (parseFloat rt ''--list-schemes'') \<Longrightarrow> parseArgs_loop rt a0 rest = Inr a \<Longrightarrow>
   ''--list-schemes'' \<in> set rest \<Longrightarrow>
   listSchemes a \<or> scheme a = Some ''--list-schemes''"
proof (induction rt a0 rest rule: parseArgs_loop.induct)
  case (1 rt a0)
  then show ?case by simp
next
  case (2 rt a0 token rest)
  note pf = "2.prems"(1) and run = "2.prems"(2) and mem = "2.prems"(3)
  consider (scheme) "token = ''--scheme''" | (nulls) "token = ''--nulls''"
    | (list) "token = ''--list-schemes''"
    | (other) "token \<noteq> ''--scheme''" "token \<noteq> ''--nulls''" "token \<noteq> ''--list-schemes''"
    by blast
  then show ?case
  proof cases
    case scheme
    from run scheme obtain name rest' where r: "\<not> scheme_or_nulls a0"
      "rest = name # rest'" "name \<noteq> []"
      "parseArgs_loop rt (a0\<lparr>scheme := Some name\<rparr>) rest' = Inr a"
      by (auto split: list.splits if_splits)
    have "scheme_or_nulls (a0\<lparr>scheme := Some name\<rparr>)"
      using r(3) by (simp add: scheme_or_nulls_def)
    from parseArgs_loop_locked [OF this r(4)] have sa: "scheme a = Some name" by simp
    from mem scheme r(2) consider "name = ''--list-schemes''" | "''--list-schemes'' \<in> set rest'"
      by auto
    then show ?thesis
    proof cases
      case 1
      then show ?thesis using sa by simp
    next
      case 2
      show ?thesis using "2.IH"(1) [OF scheme r(1,2,3) pf r(4) 2] .
    qed
  next
    case nulls
    from run nulls have r: "\<not> scheme_or_nulls a0"
      "\<not> (\<not> isFinite (parseFloat_shift rt rest) \<or> \<not> isFinite (parseFloat_shift rt (tl rest)))"
      "parseArgs_loop rt (a0\<lparr>nulls := Some (parseFloat_shift rt rest, parseFloat_shift rt (tl rest))\<rparr>)
         (tl (tl rest)) = Inr a"
      by (auto simp: Let_def split: if_splits)
    have ns: "token \<noteq> ''--scheme''" using nulls by simp
    have f: "isFinite (parseFloat_shift rt rest)" "isFinite (parseFloat_shift rt (tl rest))"
      using r(2) by auto
    have "''--list-schemes'' \<in> set rest" using mem nulls by auto
    moreover have "\<not> (rest \<noteq> [] \<and> ''--list-schemes'' = hd rest)"
      using parseFloat_shift_hd [OF f(1)] f(1) pf by auto
    moreover have "\<not> (tl rest \<noteq> [] \<and> ''--list-schemes'' = hd (tl rest))"
      using parseFloat_shift_hd [OF f(2)] f(2) pf by auto
    ultimately have "''--list-schemes'' \<in> set (tl (tl rest))"
      using set_tl_tl [of "''--list-schemes''" rest] by blast
    then show ?thesis using "2.IH"(2) [OF ns nulls r(1) refl refl r(2) pf r(3)] by simp
  next
    case list
    have "parseArgs_loop rt (a0\<lparr>listSchemes := True\<rparr>) rest = Inr a"
      using run list by simp
    then have "listSchemes a" by (rule parseArgs_loop_keeps_flag [rotated]) simp
    then show ?thesis by simp
  next
    case other
    from run other
    have c: "take 2 token \<noteq> ''--''" "argPivotToSpindle a0 = None"
      "isFinite (parseFloat rt token)"
      "parseArgs_loop rt (a0\<lparr>argPivotToSpindle := Some (parseFloat rt token)\<rparr>) rest = Inr a"
      by (auto simp: Let_def split: if_splits)
    have "''--list-schemes'' \<in> set rest" using mem other by auto
    then show ?thesis using "2.IH"(4) [OF other _ _ refl _ pf c(4)] c by simp
  qed
qed

lemma parseArgs_loop_exclusive:
  "parseArgs_loop rt a0 rest = Inr a \<Longrightarrow>
   (nulls a0 = None \<or> scheme a0 = None) \<and> scheme a0 \<noteq> Some [] \<Longrightarrow>
   (nulls a = None \<or> scheme a = None) \<and> scheme a \<noteq> Some []"
proof (induction rt a0 rest rule: parseArgs_loop.induct)
  case (1 rt a0)
  then show ?case by simp
next
  case (2 rt a0 token rest)
  note run = "2.prems"(1) and inv = "2.prems"(2)
  consider (scheme) "token = ''--scheme''" | (nulls) "token = ''--nulls''"
    | (list) "token = ''--list-schemes''"
    | (other) "token \<noteq> ''--scheme''" "token \<noteq> ''--nulls''" "token \<noteq> ''--list-schemes''"
    by blast
  then show ?case
  proof cases
    case scheme
    from run scheme obtain name rest' where r: "\<not> scheme_or_nulls a0"
      "rest = name # rest'" "name \<noteq> []"
      "parseArgs_loop rt (a0\<lparr>scheme := Some name\<rparr>) rest' = Inr a"
      by (auto split: list.splits if_splits)
    have "nulls a0 = None" using r(1) by (cases "nulls a0") (auto simp: scheme_or_nulls_def)
    then show ?thesis using "2.IH"(1) [OF scheme r(1,2,3,4)] r(3) by simp
  next
    case nulls
    from run nulls have r: "\<not> scheme_or_nulls a0"
      "\<not> (\<not> isFinite (parseFloat_shift rt rest) \<or> \<not> isFinite (parseFloat_shift rt (tl rest)))"
      "parseArgs_loop rt (a0\<lparr>nulls := Some (parseFloat_shift rt rest, parseFloat_shift rt (tl rest))\<rparr>)
         (tl (tl rest)) = Inr a"
      by (auto simp: Let_def split: if_splits)
    have ns: "token \<noteq> ''--scheme''" using nulls by simp
    have "scheme a0 = None"
      using r(1) inv by (cases "scheme a0") (auto simp: scheme_or_nulls_def)
    then show ?thesis using "2.IH"(2) [OF ns nulls r(1) refl refl r(2,3)] by simp
  next
    case list
    have ns: "token \<noteq> ''--scheme''" "token \<noteq> ''--nulls''" using list by simp_all
    have "parseArgs_loop rt (a0\<lparr>listSchemes := True\<rparr>) rest = Inr a"
      using run list by simp
    then show ?thesis using "2.IH"(3) [OF ns list] inv by simp
  next
    case other
    from run other
    have c: "take 2 token \<noteq> ''--''" "argPivotToSpindle a0 = None"
      "isFinite (parseFloat rt token)"
      "parseArgs_loop rt (a0\<lparr>argPivotToSpindle := Some (parseFloat rt token)\<rparr>) rest = Inr a"
      by (auto simp: Let_def split: if_splits)
    show ?thesis using "2.IH"(4) [OF other _ _ refl _ c(4)] c inv by simp
  qed
qed

lemma adjacent_Cons: "adjacent x y rest \<Longrightarrow> adjacent x y (t # rest)"
  by (cases rest) auto

lemma parseArgs_loop_scheme_origin:
  "parseArgs_loop rt a0 rest = Inr a \<Longrightarrow> scheme a = Some n \<Longrightarrow>
   scheme a0 = Some n \<or> adjacent ''--scheme'' n rest"
proof (induction rt a0 rest rule: parseArgs_loop.induct)
  case (1 rt a0)
  then show ?case by simp
next
  case (2 rt a0 token rest)
  note run = "2.prems"(1) and sa = "2.prems"(2)
  consider (scheme) "token = ''--scheme''" | (nulls) "token = ''--nulls''"
    | (list) "token = ''--list-schemes''"
    | (other) "token \<noteq> ''--scheme''" "token \<noteq> ''--nulls''" "token \<noteq> ''--list-schemes''"
    by blast
  then show ?case
  proof cases
    case scheme
    from run scheme obtain name rest' where r: "\<not> scheme_or_nulls a0"
      "rest = name # rest'" "name \<noteq> []"
      "parseArgs_loop rt (a0\<lparr>scheme := Some name\<rparr>) rest' = Inr a"
      by (auto split: list.splits if_splits)
    have "scheme_or_nulls (a0\<lparr>scheme := Some name\<rparr>)"
      using r(3) by (simp add: scheme_or_nulls_def)
    from parseArgs_loop_locked [OF this r(4)] have "scheme a = Some name" by simp
    then show ?thesis using sa scheme r(2) by simp
  next
    case nulls
    from run nulls have r: "\<not> scheme_or_nulls a0"
      "\<not> (\<not> isFinite (parseFloat_shift rt rest) \<or> \<not> isFinite (parseFloat_shift rt (tl rest)))"
      "parseArgs_loop rt (a0\<lparr>nulls := Some (parseFloat_shift rt rest, parseFloat_shift rt (tl rest))\<rparr>)
         (tl (tl rest)) = Inr a"
      by (auto simp: Let_def split: if_splits)
    have ns: "token \<noteq> ''--scheme''" using nulls by simp
    have f: "isFinite (parseFloat_shift rt rest)" "isFinite (parseFloat_shift rt (tl rest))"
      using r(2) by auto
    obtain x y where xy: "rest = x # y # tl (tl rest)"
      using parseFloat_shift_hd [OF f(1)] parseFloat_shift_hd [OF f(2)]
      by (cases rest; cases "tl rest") auto
    from "2.IH"(2) [OF ns nulls r(1) refl refl r(2,3) sa]
    have "scheme a0 = Some n \<or> adjacent ''--scheme'' n (tl (tl rest))" by simp
    then show ?thesis
    proof
      assume "adjacent ''--scheme'' n (tl (tl rest))"
      then have "adjacent ''--scheme'' n (token # x # y # tl (tl rest))"
        by (intro adjacent_Cons)
      then show ?thesis using xy by simp
    qed simp
  next
    case list
    have ns: "token \<noteq> ''--scheme''" "token \<noteq> ''--nulls''" using list by simp_all
    have "parseArgs_loop rt (a0\<lparr>listSchemes := True\<rparr>) rest = Inr a"
      using run list by simp
    from "2.IH"(3) [OF ns list this sa] show ?thesis by (auto intro: adjacent_Cons)
  next
    case other
    from run other
    have c: "take 2 token \<noteq> ''--''" "argPivotToSpindle a0 = None"
      "isFinite (parseFloat rt token)"
      "parseArgs_loop rt (a0\<lparr>argPivotToSpindle := Some (parseFloat rt token)\<rparr>) rest = Inr a"
      by (auto simp: Let_def split: if_splits)
    from "2.IH"(4) [OF other _ _ refl _ c(4) sa] c show ?thesis by (auto intro: adjacent_Cons)
  qed
qed

lemma parseArgs_loop_both_once:
  "\<not> isFinite (parseFloat rt ''--scheme'') \<Longrightarrow> \<not> scheme_or_nulls a0 \<Longrightarrow>
   parseArgs_loop rt a0 rest = Inr a \<Longrightarrow>
   ''--scheme'' \<in> set rest \<Longrightarrow> ''--nulls'' \<in> set rest \<Longrightarrow>
   count_list rest ''--scheme'' = 1 \<and> count_list rest ''--nulls'' = 1"
proof (induction rt a0 rest rule: parseArgs_loop.induct)
  case (1 rt a0)
  then show ?case by simp
next
  case (2 rt a0 token rest)
  note pf = "2.prems"(1) and free = "2.prems"(2) and run = "2.prems"(3)
    and s = "2.prems"(4) and n = "2.prems"(5)
  consider (scheme) "token = ''--scheme''" | (nulls) "token = ''--nulls''"
    | (list) "token = ''--list-schemes''"
    | (other) "token \<noteq> ''--scheme''" "token \<noteq> ''--nulls''" "token \<noteq> ''--list-schemes''"
    by blast
  then show ?case
  proof cases
    case scheme
    from run scheme free obtain name rest' where r: "rest = name # rest'" "name \<noteq> []"
      "parseArgs_loop rt (a0\<lparr>scheme := Some name\<rparr>) rest' = Inr a"
      by (auto split: list.splits if_splits)
    have "scheme_or_nulls (a0\<lparr>scheme := Some name\<rparr>)"
      using r(2) by (simp add: scheme_or_nulls_def)
    from parseArgs_loop_locked [OF this r(3)]
    have l: "''--scheme'' \<notin> set rest'" "''--nulls'' \<notin> set rest'" by simp_all
    have "name = ''--nulls''" using n l(2) r(1) scheme by auto
    then show ?thesis using l r(1) scheme by (simp add: count_list_0_iff)
  next
    case nulls
    from run nulls free have r: "isFinite (parseFloat_shift rt rest)"
      "isFinite (parseFloat_shift rt (tl rest))"
      "parseArgs_loop rt (a0\<lparr>nulls := Some (parseFloat_shift rt rest, parseFloat_shift rt (tl rest))\<rparr>)
         (tl (tl rest)) = Inr a"
      by (auto simp: Let_def split: if_splits)
    have "scheme_or_nulls (a0\<lparr>nulls := Some (parseFloat_shift rt rest, parseFloat_shift rt (tl rest))\<rparr>)"
      by (simp add: scheme_or_nulls_def)
    from parseArgs_loop_locked [OF this r(3)]
    have l: "''--scheme'' \<notin> set (tl (tl rest))" by simp
    have "''--scheme'' \<in> set rest" using s nulls by auto
    from set_tl_tl [OF this l] parseFloat_shift_hd [OF r(1)] parseFloat_shift_hd [OF r(2)] r(1,2) pf
    show ?thesis by auto
  next
    case list
    have "\<not> scheme_or_nulls (a0\<lparr>listSchemes := True\<rparr>)"
      using free by (simp add: scheme_or_nulls_def)
    moreover have "parseArgs_loop rt (a0\<lparr>listSchemes := True\<rparr>) rest = Inr a"
      using run list by simp
    moreover have "''--scheme'' \<in> set rest" "''--nulls'' \<in> set rest" using s n list by auto
    ultimately show ?thesis using "2.IH"(3) [OF _ _ list pf] list by simp
  next
    case other
    from run other
    have c: "take 2 token \<noteq> ''--''" "argPivotToSpindle a0 = None"
      "isFinite (parseFloat rt token)"
      "parseArgs_loop rt (a0\<lparr>argPivotToSpindle := Some (parseFloat rt token)\<rparr>) rest = Inr a"
      by (auto simp: Let_def split: if_splits)
    have "\<not> scheme_or_nulls (a0\<lparr>argPivotToSpindle := Some (parseFloat rt token)\<rparr>)"
      using free by (simp add: scheme_or_nulls_def)
    moreover have "''--scheme'' \<in> set rest" "''--nulls'' \<in> set rest" using s n other by auto
    ultimately show ?thesis using "2.IH"(4) [OF other _ _ refl _ pf] c other by simp
  qed
qed

text \<open>
  C7, as stated, fails: \<^verbatim>\<open>main\<close> parses the whole command line before it looks at
  \<^verbatim>\<open>args.listSchemes\<close>, so an unknown flag next to \<^verbatim>\<open>--list-schemes\<close> ends the run with
  an error and exit code 1.
\<close>

theorem list_schemes_counterexample:
  "\<forall>rt. main rt [''--list-schemes'', ''--bogus''] = ([Stderr ''error: Unknown flag: --bogus''], 1)"
  by (simp add: main_def main_resolve_def parseArgs_def)

text \<open>
  C7, amended. On a command line that holds the token \<^verbatim>\<open>--list-schemes\<close> one of three things
  happens. Either the command line parses with the flag set: then the program prints one
  line for each of the 5 schemes, name and null points, and ends with exit code 0, whether
  or not a pivot-to-spindle distance was given. Or parsing fails: then the program prints
  the usage error and ends with exit code 1, so the other arguments are not ignored. Or the
  token comes directly after \<^verbatim>\<open>--scheme\<close> and is taken as the name of a scheme: then one
  line is printed and the exit code is 1. (\<open>parseFloat\<close> of the token \<^verbatim>\<open>--list-schemes\<close> is
  \<open>NaN\<close> in every runtime; the theorem assumes it is not finite.)
\<close>

theorem list_schemes_by_token:
  assumes "''--list-schemes'' \<in> set argv"
    and "\<not> isFinite (parseFloat rt ''--list-schemes'')"
  shows "(\<exists>a. parseArgs rt argv = Inr a \<and> listSchemes a \<and>
            main rt argv =
              (map (\<lambda>(name, inner, outer).
                      Stdout (name @ '': '' @ toString rt inner @ '' mm / '' @
                              toString rt outer @ '' mm'')) SCHEMES, 0) \<and>
            length (fst (main rt argv)) = 5) \<or>
         (\<exists>e. parseArgs rt argv = Inl e \<and>
            main rt argv = ([Stderr (''error: '' @ usage_message e)], 1)) \<or>
         (\<exists>a. parseArgs rt argv = Inr a \<and> \<not> listSchemes a \<and>
            adjacent ''--scheme'' ''--list-schemes'' argv \<and>
            scheme a = Some ''--list-schemes'' \<and> nulls a = None \<and>
            length (fst (main rt argv)) = 1 \<and> snd (main rt argv) = 1)"
proof (cases "parseArgs rt argv")
  case (Inl e)
  then show ?thesis by (simp add: main_def main_resolve_def)
next
  case (Inr a)
  from parseArgs_loop_list_token [OF assms(2) Inr [unfolded parseArgs_def] assms(1)]
  have d: "listSchemes a \<or> scheme a = Some ''--list-schemes''" .
  show ?thesis
  proof (cases "listSchemes a")
    case True
    then show ?thesis using Inr by (simp add: main_def main_resolve_def SCHEMES_def)
  next
    case False
    then have s: "scheme a = Some ''--list-schemes''" using d by simp
    have n: "nulls a = None"
      using parseArgs_loop_exclusive [OF Inr [unfolded parseArgs_def]] s by simp
    have adj: "adjacent ''--scheme'' ''--list-schemes'' argv"
      using parseArgs_loop_scheme_origin [OF Inr [unfolded parseArgs_def] s] by simp
    have m: "map_of SCHEMES ''--list-schemes'' = None" by (simp add: SCHEMES_def)
    show ?thesis using Inr False s n m adj
      by (cases "argPivotToSpindle a") (auto simp: main_def main_resolve_def)
  qed
qed

theorem list_schemes_by_token_witness:
  "\<not> isFinite (parseFloat \<lparr> asin_approx = arcsin,
                            parseFloat = (\<lambda>s. if s = ''212'' then Fin 212 else NaN),
                            toString = (\<lambda>n. []), toFixed = (\<lambda>n d. []) \<rparr> ''--list-schemes'') \<and>
   parseArgs \<lparr> asin_approx = arcsin,
               parseFloat = (\<lambda>s. if s = ''212'' then Fin 212 else NaN),
               toString = (\<lambda>n. []), toFixed = (\<lambda>n d. []) \<rparr>
     [''212'', ''--list-schemes''] =
     Inr \<lparr> argPivotToSpindle = Some (Fin 212), scheme = None, nulls = None, listSchemes = True \<rparr> \<and>
   length (fst (main \<lparr> asin_approx = arcsin,
                         parseFloat = (\<lambda>s. if s = ''212'' then Fin 212 else NaN),
                         toString = (\<lambda>n. []), toFixed = (\<lambda>n d. []) \<rparr>
                  [''212'', ''--list-schemes''])) = 5 \<and>
   snd (main \<lparr> asin_approx = arcsin,
               parseFloat = (\<lambda>s. if s = ''212'' then Fin 212 else NaN),
               toString = (\<lambda>n. []), toFixed = (\<lambda>n d. []) \<rparr>
          [''212'', ''--list-schemes'']) = 0"
  using list_schemes_by_token
    [of "[''212'', ''--list-schemes'']"
        "\<lparr> asin_approx = arcsin,
            parseFloat = (\<lambda>s. if s = ''212'' then Fin 212 else NaN),
            toString = (\<lambda>n. []), toFixed = (\<lambda>n d. []) \<rparr>"]
  by (simp add: parseArgs_def scheme_or_nulls_def SCHEMES_def)

text \<open>
  The token \<^verbatim>\<open>--nulls\<close> directly after \<^verbatim>\<open>--scheme\<close> is read as the name of a scheme: this
  command line supplies no null points, and it parses.
\<close>

lemma nulls_token_as_scheme_name:
  "nulls_is_scheme_name [''--scheme'', ''--nulls''] \<and>
   (\<forall>rt. parseArgs rt [''--scheme'', ''--nulls''] =
      Inr \<lparr> argPivotToSpindle = None, scheme = Some ''--nulls'', nulls = None,
            listSchemes = False \<rparr>)"
  by (simp add: nulls_is_scheme_name_def parseArgs_def scheme_or_nulls_def)

text \<open>
  C8. A command line that supplies both \<^verbatim>\<open>--scheme\<close> and \<^verbatim>\<open>--nulls\<close> (both tokens occur,
  and \<^verbatim>\<open>--nulls\<close> is not merely the scheme name of the one \<^verbatim>\<open>--scheme\<close>) fails in
  \<^verbatim>\<open>parseArgs\<close> with a usage error: \<^verbatim>\<open>main\<close> prints the error and ends with exit code 1
  before it reaches the call of \<^verbatim>\<open>calculateGeometry\<close>. (\<open>parseFloat\<close> of the token
  \<^verbatim>\<open>--scheme\<close> is \<open>NaN\<close> in every runtime; the theorem assumes it is not finite.)
\<close>

theorem scheme_and_nulls_rejected:
  assumes "''--scheme'' \<in> set argv" and "''--nulls'' \<in> set argv"
    and "\<not> nulls_is_scheme_name argv"
    and "\<not> isFinite (parseFloat rt ''--scheme'')"
  shows "\<exists>e. parseArgs rt argv = Inl e \<and>
           main_resolve rt argv = Inl ([Stderr (''error: '' @ usage_message e)], 1) \<and>
           main rt argv = ([Stderr (''error: '' @ usage_message e)], 1)"
proof (cases "parseArgs rt argv")
  case (Inl e)
  then show ?thesis by (simp add: main_def main_resolve_def)
next
  case (Inr a)
  have "\<not> scheme_or_nulls
          \<lparr> argPivotToSpindle = None, scheme = None, nulls = None, listSchemes = False \<rparr>"
    by (simp add: scheme_or_nulls_def)
  note free = this
  from parseArgs_loop_both [OF assms(4) free Inr [unfolded parseArgs_def] assms(1,2)]
  have "scheme a = Some ''--nulls''" by simp
  from parseArgs_loop_scheme_origin [OF Inr [unfolded parseArgs_def] this]
  have "adjacent ''--scheme'' ''--nulls'' argv" by simp
  moreover from parseArgs_loop_both_once [OF assms(4) free Inr [unfolded parseArgs_def] assms(1,2)]
  have "count_list argv ''--scheme'' = 1" "count_list argv ''--nulls'' = 1" by simp_all
  ultimately show ?thesis using assms(3) by (simp add: nulls_is_scheme_name_def)
qed

theorem scheme_and_nulls_rejected_witness:
  "\<not> nulls_is_scheme_name
       [''212'', ''--scheme'', ''Stevenson'', ''--nulls'', ''1'', ''2''] \<and>
   \<not> isFinite (parseFloat \<lparr> asin_approx = arcsin,
                            parseFloat = (\<lambda>s. if s = ''212'' then Fin 212 else NaN),
                            toString = (\<lambda>n. []), toFixed = (\<lambda>n d. []) \<rparr> ''--scheme'') \<and>
   parseArgs \<lparr> asin_approx = arcsin,
               parseFloat = (\<lambda>s. if s = ''212'' then Fin 212 else NaN),
               toString = (\<lambda>n. []), toFixed = (\<lambda>n d. []) \<rparr>
     [''212'', ''--scheme'', ''Stevenson'', ''--nulls'', ''1'', ''2''] = Inl ChooseOnlyOne \<and>
   main \<lparr> asin_approx = arcsin,
          parseFloat = (\<lambda>s. if s = ''212'' then Fin 212 else NaN),
          toString = (\<lambda>n. []), toFixed = (\<lambda>n d. []) \<rparr>
     [''212'', ''--scheme'', ''Stevenson'', ''--nulls'', ''1'', ''2''] =
     ([Stderr ''error: Choose only one of --scheme or --nulls.''], 1)"
  using scheme_and_nulls_rejected
    [of "[''212'', ''--scheme'', ''Stevenson'', ''--nulls'', ''1'', ''2'']"
        "\<lparr> asin_approx = arcsin,
            parseFloat = (\<lambda>s. if s = ''212'' then Fin 212 else NaN),
            toString = (\<lambda>n. []), toFixed = (\<lambda>n d. []) \<rparr>"]
  by (simp add: parseArgs_def scheme_or_nulls_def nulls_is_scheme_name_def)

section \<open>Evaluating the rounding on concrete values\<close>

lemma rne_eqI: "of_int n - 1 / 2 < m \<Longrightarrow> m < of_int n + 1 / 2 \<Longrightarrow> rne m = n"
proof -
  assume a: "of_int n - 1 / 2 < m" "m < of_int n + 1 / 2"
  then have "\<lfloor>m\<rfloor> = n \<or> \<lfloor>m\<rfloor> = n - 1" by linarith
  then show ?thesis
  proof
    assume f: "\<lfloor>m\<rfloor> = n"
    then show ?thesis using a unfolding rne_def Let_def by simp
  next
    assume f: "\<lfloor>m\<rfloor> = n - 1"
    then show ?thesis using a unfolding rne_def Let_def by simp
  qed
qed

lemma fl_0: "fl 0 = Fin 0"
  by (simp add: fl_def rnd_0)

lemma fl_eval:
  assumes "0 < x" "2 powi e \<le> x" "x < 2 powi (e + 1)" "- 1022 \<le> e" "e < 1023"
  shows "fl x = Fin (of_int (rne (x / 2 powi (e - 52))) * 2 powi (e - 52))"
proof -
  have e: "expo x = e" using expo_normal [of e x] assms by simp
  have "rnd x \<le> 2 powi (e + 1)" using rnd_upper [OF assms(1)] e by simp
  also have "\<dots> \<le> 2 powi 1023" using assms(5) by (intro power_int_increasing) auto
  also have "\<dots> < 2 ^ 1024" by simp
  finally have "rnd x < 2 ^ 1024" .
  then have "fl x = Fin (rnd x)" using fl_cases_nonneg [of x] assms(1) by auto
  then show ?thesis by (simp add: rnd_def ulp_def e)
qed

lemma fl_eval_sub:
  assumes "0 < x" "x < 2 powi (- 1022)"
  shows "fl x = Fin (of_int (rne (x / 2 powi (- 1074))) * 2 powi (- 1074))"
proof -
  have e: "expo x = - 1022" using expo_subnormal [of x] assms by simp
  have "rnd x \<le> 2 powi (- 1022 + 1)" using rnd_upper [OF assms(1)] e by simp
  also have "\<dots> < 2 ^ 1024" by simp
  finally have "rnd x < 2 ^ 1024" .
  then have "fl x = Fin (rnd x)" using fl_cases_nonneg [of x] assms(1) by auto
  then show ?thesis by (simp add: rnd_def ulp_def e)
qed

lemma lit_1209: "js_lit (1209 / 10) = Fin (4253790585539789 / 2 ^ 45)"
  unfolding js_lit_def by (subst fl_eval [where e = 6]) (simp_all add: rne_def Let_def)

lemma sqrt_rne:
  assumes "0 < u" "(0::real) \<le> (of_int n - 1 / 2) * u"
    and "((of_int n - 1 / 2) * u)\<^sup>2 < v" and "v < ((of_int n + 1 / 2) * u)\<^sup>2"
  shows "rne (sqrt v / u) = n"
proof -
  have "(of_int n - 1 / 2) * u < sqrt v" using assms(3) by (rule real_less_rsqrt)
  moreover have "sqrt v < (of_int n + 1 / 2) * u"
    using assms(1,2,4) by (intro real_less_lsqrt) (auto simp: zero_le_mult_iff)
  ultimately show ?thesis using assms(1) by (intro rne_eqI) (simp_all add: field_simps)
qed

lemma fl_sqrt_eval:
  assumes "(2 powi e)\<^sup>2 \<le> v" "v < (2 powi (e + 1))\<^sup>2" "- 1022 \<le> e" "e < 1023"
    and "(0::real) \<le> (of_int n - 1 / 2) * 2 powi (e - 52)"
    and "((of_int n - 1 / 2) * 2 powi (e - 52))\<^sup>2 < v"
    and "v < ((of_int n + 1 / 2) * 2 powi (e - 52))\<^sup>2"
  shows "fl (sqrt v) = Fin (of_int n * 2 powi (e - 52))"
proof -
  have l: "2 powi e \<le> sqrt v" using assms(1) by (rule real_le_rsqrt)
  then have p: "0 < sqrt v" by (smt (verit) zero_less_power_int)
  have u: "sqrt v < 2 powi (e + 1)" using assms(2) by (intro real_less_lsqrt) auto
  have "rne (sqrt v / 2 powi (e - 52)) = n"
    using assms(5-7) by (intro sqrt_rne) auto
  then show ?thesis using fl_eval [OF p l u assms(3,4)] by simp
qed

lemma scenario_ops:
  "js_mul (Fin 66) (Fin (4253790585539789 / 2 ^ 45)) = Fin (8773443082675815 / 2 ^ 40)"
  "js_mul (Fin 212) (Fin 212) = Fin 44944"
  "js_add (Fin 44944) (Fin (8773443082675815 / 2 ^ 40)) = Fin (7273736710180045 / 2 ^ 37)"
  "Math_sqrt (Fin (7273736710180045 / 2 ^ 37)) = Fin (8094195196257371 / 2 ^ 45)"
  "js_add (Fin 66) (Fin (4253790585539789 / 2 ^ 45)) = Fin (6575959143402701 / 2 ^ 45)"
  "js_mul (Fin (1 / 2)) (Fin (6575959143402701 / 2 ^ 45)) = Fin (6575959143402701 / 2 ^ 46)"
  "js_div (Fin (6575959143402701 / 2 ^ 46)) (Fin (8094195196257371 / 2 ^ 45)) =
     Fin (7317710144061203 / 2 ^ 54)"
  "js_sub (Fin (8094195196257371 / 2 ^ 45)) (Fin 212) = Fin (635108313424987 / 2 ^ 45)"
proof -
  show "js_mul (Fin 66) (Fin (4253790585539789 / 2 ^ 45)) = Fin (8773443082675815 / 2 ^ 40)"
    by (simp, subst fl_eval [where e = 12]) (simp_all add: rne_def Let_def)
  show "js_mul (Fin 212) (Fin 212) = Fin 44944"
    using fl_int [of 44944] by simp
  show "js_add (Fin 44944) (Fin (8773443082675815 / 2 ^ 40)) = Fin (7273736710180045 / 2 ^ 37)"
    by (simp, subst fl_eval [where e = 15]) (simp_all add: rne_def Let_def)
  show "Math_sqrt (Fin (7273736710180045 / 2 ^ 37)) = Fin (8094195196257371 / 2 ^ 45)"
    using fl_sqrt_eval [where e = 7 and n = 8094195196257371 and v = "7273736710180045 / 2 ^ 37"]
    by (simp add: power2_eq_square)
  show "js_add (Fin 66) (Fin (4253790585539789 / 2 ^ 45)) = Fin (6575959143402701 / 2 ^ 45)"
    using fl_frac [of 6575959143402701 45] by simp
  show "js_mul (Fin (1 / 2)) (Fin (6575959143402701 / 2 ^ 45)) = Fin (6575959143402701 / 2 ^ 46)"
    using fl_frac [of 6575959143402701 46] by simp
  show "js_div (Fin (6575959143402701 / 2 ^ 46)) (Fin (8094195196257371 / 2 ^ 45)) =
     Fin (7317710144061203 / 2 ^ 54)"
    by (simp, subst fl_eval [where e = "- 2"]) (simp_all add: rne_def Let_def)
  show "js_sub (Fin (8094195196257371 / 2 ^ 45)) (Fin 212) = Fin (635108313424987 / 2 ^ 45)"
    using fl_frac [of 635108313424987 45] by (simp add: js_sub_def)
qed

section \<open>Scenario 1: pivot-to-spindle 212 with the first scheme\<close>

text \<open>Enclosing the sine by its Taylor polynomial, to enclose the arc sine.\<close>

lemma sin_coeff_values:
  "sin_coeff (Suc 0) = 1" "sin_coeff 2 = 0" "sin_coeff 3 = - 1 / 6" "sin_coeff 4 = 0"
  "sin_coeff 5 = 1 / 120" "sin_coeff 6 = 0"
  by (simp_all add: sin_coeff_def fact_numeral)

lemma sin_poly7: "(\<Sum>m<7. sin_coeff m * y ^ m) = y - y ^ 3 / 6 + y ^ 5 / 120"
proof -
  have "{..<7::nat} = {0, 1, 2, 3, 4, 5, 6}" by auto
  then show ?thesis by (simp add: sin_coeff_values)
qed

lemma sin_bounds7:
  fixes y :: real
  assumes "0 \<le> y"
  shows "sin y \<le> y - y ^ 3 / 6 + y ^ 5 / 120 + y ^ 7 / 5040"
    and "y - y ^ 3 / 6 + y ^ 5 / 120 - y ^ 7 / 5040 \<le> sin y"
proof -
  have "\<bar>sin y - (\<Sum>m<7. sin_coeff m * y ^ m)\<bar> \<le> inverse (fact 7) * \<bar>y\<bar> ^ 7"
    by (rule Maclaurin_sin_bound)
  moreover have "inverse (fact 7) * \<bar>y\<bar> ^ 7 = y ^ 7 / 5040"
    using assms by (simp add: fact_numeral)
  ultimately have "\<bar>sin y - (y - y ^ 3 / 6 + y ^ 5 / 120)\<bar> \<le> y ^ 7 / 5040"
    by (simp only: sin_poly7)
  then show "sin y \<le> y - y ^ 3 / 6 + y ^ 5 / 120 + y ^ 7 / 5040"
    and "y - y ^ 3 / 6 + y ^ 5 / 120 - y ^ 7 / 5040 \<le> sin y"
    by linarith+
qed

lemma arcsin_scenario:
  "4183 / 10000 \<le> arcsin (7317710144061203 / 2 ^ 54)"
  "arcsin (7317710144061203 / 2 ^ 54) \<le> 4184 / 10000"
proof -
  have p: "(1::real) \<le> pi / 2" using pi_ge_two by simp
  have "(4183 / 10000 :: real) - (4183 / 10000) ^ 3 / 6 + (4183 / 10000) ^ 5 / 120 +
      (4183 / 10000) ^ 7 / 5040 \<le> 7317710144061203 / 2 ^ 54"
    by (simp add: power_divide)
  then have "sin (4183 / 10000) \<le> (7317710144061203 / 2 ^ 54 :: real)"
    using sin_bounds7(1) [of "4183 / 10000"] by linarith
  then show "4183 / 10000 \<le> arcsin (7317710144061203 / 2 ^ 54)"
    using p by (subst le_arcsin_iff) simp_all
  have "(7317710144061203 / 2 ^ 54 :: real) \<le>
      4184 / 10000 - (4184 / 10000) ^ 3 / 6 + (4184 / 10000) ^ 5 / 120 - (4184 / 10000) ^ 7 / 5040"
    by (simp add: power_divide)
  then have "(7317710144061203 / 2 ^ 54 :: real) \<le> sin (4184 / 10000)"
    using sin_bounds7(2) [of "4184 / 10000"] by linarith
  then show "arcsin (7317710144061203 / 2 ^ 54) \<le> 4184 / 10000"
    using p by (subst arcsin_le_iff) simp_all
qed

lemma fl_bounds:
  assumes "fl l = Fin l" "fl u = Fin u" "0 \<le> l" "l \<le> x" "x \<le> u"
  shows "\<exists>r. fl x = Fin r \<and> l \<le> r \<and> r \<le> u"
proof -
  have "js_le (Fin l) (fl x)" using fl_ge [OF assms(1,3,4)] .
  moreover have "js_le (fl x) (Fin u)" using fl_le [OF assms(2) _ assms(5)] assms(3,4) by simp
  ultimately show ?thesis by (cases "fl x") (auto simp: js_le_def js_ge_def)
qed

lemma lit_66: "js_lit 66 = Fin 66"
  unfolding js_lit_def using fl_int [of 66] by simp

lemma scenario_result:
  "calculateGeometry approx (Fin 212) (js_lit 66) (js_lit (1209 / 10)) =
     Inr \<lparr> pivotToSpindle = Fin 212, innerNull = Fin 66,
           outerNull = Fin (4253790585539789 / 2 ^ 45),
           effectiveLength = Fin (8094195196257371 / 2 ^ 45),
           offsetAngleDeg =
             js_div (js_mul (Fin (approx (7317710144061203 / 2 ^ 54))) (Fin 180)) Math_PI,
           overhang = Fin (635108313424987 / 2 ^ 45),
           linearOffset = Fin (6575959143402701 / 2 ^ 46) \<rparr>"
  by (simp add: calculateGeometry_def Let_def lit_66 lit_1209 js_gt_def js_ge_def
      scenario_ops [simplified])

text \<open>
  C3, as stated, fails. For 212 and the null points of the first scheme, 66 and 120.9,
  the program computes the effective length 230.0508... (the square root of 52923.4),
  not 224.34, and the overhang 18.0508..., not 12.34.
\<close>

theorem scenario_1_counterexample:
  "\<forall>approx. \<exists>g.
     calculateGeometry approx (Fin 212) (js_lit 66) (js_lit (1209 / 10)) = Inr g \<and>
     effectiveLength g = Fin (8094195196257371 / 2 ^ 45) \<and>
     (230 :: real) < 8094195196257371 / 2 ^ 45 \<and>
     overhang g = Fin (635108313424987 / 2 ^ 45) \<and>
     (18 :: real) < 635108313424987 / 2 ^ 45"
  by (simp add: scenario_result)

text \<open>
  C3, amended. For 212 and the first scheme the call succeeds with effective length
  230.05, overhang 18.05 and offset angle 23.97 degrees, each to two decimal places,
  provided the runtime's arc sine is within \<open>10\<^sup>-\<^sup>6\<close> of the true one.
\<close>

theorem scenario_1_values:
  assumes "\<forall>x. 0 \<le> x \<and> x \<le> 1 \<longrightarrow> \<bar>approx x - arcsin x\<bar> \<le> 1 / 10 ^ 6"
  shows "map_of SCHEMES (''L'' @ [CHR 0xC3, CHR 0xB6] @ ''fgren A / Baerwald'') =
           Some (js_lit 66, js_lit (1209 / 10)) \<and>
         (\<exists>g el ang ov.
            calculateGeometry approx (Fin 212) (js_lit 66) (js_lit (1209 / 10)) = Inr g \<and>
            effectiveLength g = Fin el \<and> \<bar>el - 23005 / 100\<bar> \<le> 5 / 1000 \<and>
            offsetAngleDeg g = Fin ang \<and> \<bar>ang - 2397 / 100\<bar> \<le> 5 / 1000 \<and>
            overhang g = Fin ov \<and> \<bar>ov - 1805 / 100\<bar> \<le> 5 / 1000)"
proof -
  define a where "a = approx (7317710144061203 / 2 ^ 54)"
  have "\<bar>a - arcsin (7317710144061203 / 2 ^ 54)\<bar> \<le> 1 / 1000000"
    unfolding a_def using assms by simp
  then have a: "418299 / 1000000 \<le> a" "a \<le> 418401 / 1000000"
    using arcsin_scenario by linarith+
  have l1: "fl (9637 / 2 ^ 7) = Fin (9637 / 2 ^ 7)"
    using fl_frac [of 9637 7] by simp
  have u1: "fl (1205 / 2 ^ 4) = Fin (1205 / 2 ^ 4)"
    using fl_frac [of 1205 4] by simp
  obtain t where t: "fl (a * 180) = Fin t" "9637 / 2 ^ 7 \<le> t" "t \<le> 1205 / 2 ^ 4"
    using fl_bounds [OF l1 u1, of "a * 180"] a by auto
  have l2: "fl (98161 / 2 ^ 12) = Fin (98161 / 2 ^ 12)"
    using fl_frac [of 98161 12] by simp
  have u2: "fl (98194 / 2 ^ 12) = Fin (98194 / 2 ^ 12)"
    using fl_frac [of 98194 12] by simp
  have "98161 / 2 ^ 12 \<le> t / (7074237752028440 / 2 ^ 51)"
    "t / (7074237752028440 / 2 ^ 51) \<le> 98194 / 2 ^ 12"
    using t(2,3) by (simp_all add: field_simps)
  then obtain ang where ang: "fl (t / (7074237752028440 / 2 ^ 51)) = Fin ang"
    "98161 / 2 ^ 12 \<le> ang" "ang \<le> 98194 / 2 ^ 12"
    using fl_bounds [OF l2 u2, of "t / (7074237752028440 / 2 ^ 51)"] by auto
  have angle: "js_div (js_mul (Fin a) (Fin 180)) Math_PI = Fin ang"
    using t(1) ang(1) by (simp add: Math_PI_def)
  have ang': "\<bar>ang - 2397 / 100\<bar> \<le> 5 / 1000"
  proof -
    have "2397 / 100 - 5 / 1000 \<le> ang" "ang \<le> 2397 / 100 + 5 / 1000"
      using ang(2,3) by simp_all
    then show ?thesis by linarith
  qed
  have el: "\<bar>8094195196257371 / 2 ^ 45 - 23005 / 100\<bar> \<le> (5 / 1000 :: real)" by simp
  have ov: "\<bar>635108313424987 / 2 ^ 45 - 1805 / 100\<bar> \<le> (5 / 1000 :: real)" by simp
  have s: "map_of SCHEMES (''L'' @ [CHR 0xC3, CHR 0xB6] @ ''fgren A / Baerwald'') =
           Some (js_lit 66, js_lit (1209 / 10))"
    by (simp add: SCHEMES_def)
  define g where "g = \<lparr> pivotToSpindle = Fin 212, innerNull = Fin 66,
           outerNull = Fin (4253790585539789 / 2 ^ 45),
           effectiveLength = Fin (8094195196257371 / 2 ^ 45),
           offsetAngleDeg = Fin ang,
           overhang = Fin (635108313424987 / 2 ^ 45),
           linearOffset = Fin (6575959143402701 / 2 ^ 46) \<rparr>"
  have "calculateGeometry approx (Fin 212) (js_lit 66) (js_lit (1209 / 10)) = Inr g \<and>
       effectiveLength g = Fin (8094195196257371 / 2 ^ 45) \<and>
       \<bar>8094195196257371 / 2 ^ 45 - 23005 / 100\<bar> \<le> (5 / 1000 :: real) \<and>
       offsetAngleDeg g = Fin ang \<and> \<bar>ang - 2397 / 100\<bar> \<le> 5 / 1000 \<and>
       overhang g = Fin (635108313424987 / 2 ^ 45) \<and>
       \<bar>635108313424987 / 2 ^ 45 - 1805 / 100\<bar> \<le> (5 / 1000 :: real)"
    unfolding scenario_result a_def [symmetric] angle g_def
    using el ov ang' by (simp only: geometry.simps simp_thms)
  then have "\<exists>g el ang ov.
       calculateGeometry approx (Fin 212) (js_lit 66) (js_lit (1209 / 10)) = Inr g \<and>
       effectiveLength g = Fin el \<and> \<bar>el - 23005 / 100\<bar> \<le> 5 / 1000 \<and>
       offsetAngleDeg g = Fin ang \<and> \<bar>ang - 2397 / 100\<bar> \<le> 5 / 1000 \<and>
       overhang g = Fin ov \<and> \<bar>ov - 1805 / 100\<bar> \<le> 5 / 1000"
    by blast
  then show ?thesis using s by blast
qed

theorem scenario_1_values_witness:
  "\<exists>g el ang ov.
      calculateGeometry arcsin (Fin 212) (js_lit 66) (js_lit (1209 / 10)) = Inr g \<and>
      effectiveLength g = Fin el \<and> \<bar>el - 23005 / 100\<bar> \<le> 5 / 1000 \<and>
      offsetAngleDeg g = Fin ang \<and> \<bar>ang - 2397 / 100\<bar> \<le> 5 / 1000 \<and>
      overhang g = Fin ov \<and> \<bar>ov - 1805 / 100\<bar> \<le> 5 / 1000"
  using scenario_1_values [of arcsin] by simp

section \<open>The boundary of the impossible-geometry check\<close>

lemma fl_overflow:
  assumes "2 ^ 1024 \<le> x"
  shows "fl x = PInf"
proof -
  have "rnd (2 ^ 1024) = (2 ^ 1024 :: real)"
    using rnd_dyadic [of "2 ^ 1024" 1 1024] by simp
  then have "2 ^ 1024 \<le> rnd x" using rnd_mono [of "2 ^ 1024" x] assms by simp
  then show ?thesis by (simp add: fl_def)
qed

text \<open>A positive binary64 value is at least the smallest subnormal.\<close>

lemma is_double_pos:
  assumes "fl a = Fin a" "0 < a"
  shows "2 powi (- 1074) \<le> a"
proof -
  have r: "rnd a = a" using fl_cases_nonneg [of a] assms by auto
  define k where "k = rne (a / ulp a)"
  have a: "a = of_int k * ulp a" using r by (simp add: rnd_def k_def)
  have "0 < of_int k * ulp a" using a assms(2) by simp
  then have "0 < k" using ulp_pos [of a] by (simp add: zero_less_mult_iff)
  then have "1 \<le> (of_int k :: real)" by simp
  then have "1 * ulp a \<le> of_int k * ulp a" using ulp_pos [of a] by (intro mult_right_mono) auto
  then have "ulp a \<le> a" using a by simp
  moreover have "(2::real) powi (- 1074) \<le> ulp a"
    unfolding ulp_powi using expo_ge [of a] by (intro power_int_increasing) auto
  ultimately show ?thesis by linarith
qed

lemma fl_ge_cases:
  assumes "fl m = Fin m" "0 \<le> m" "m \<le> x"
  shows "fl x = PInf \<or> (\<exists>r. fl x = Fin r \<and> m \<le> r)"
  using fl_ge [OF assms] by (cases "fl x") (auto simp: js_le_def js_ge_def)

lemma min_subnormal: "fl (2 powi (- 1074)) = Fin (2 powi (- 1074))"
  using fl_dyadic [of "2 powi (- 1074)" 1 "- 1074"] by simp

lemma linearOffset_pos:
  assumes "is_number inn" "is_number out" "js_gt inn (Fin 0)" "js_gt out (Fin 0)"
    and "\<not> js_ge inn out"
  shows "js_mul (Fin (1 / 2)) (js_add inn out) = PInf \<or>
         (\<exists>r. js_mul (Fin (1 / 2)) (js_add inn out) = Fin r \<and> 2 powi (- 1074) \<le> r)"
proof -
  obtain a where a: "inn = Fin a" "0 < a" "fl a = Fin a"
    using assms by (cases inn; cases out) (auto simp: js_gt_def js_ge_def is_double_def)
  show ?thesis
  proof (cases out)
    case (Fin b)
    then have b: "0 < b" "fl b = Fin b" using assms by (auto simp: js_gt_def is_double_def)
    have "2 powi (- 1074) \<le> a" "2 powi (- 1074) \<le> b"
      using is_double_pos a b by auto
    then have s: "2 powi (- 1074) \<le> (a + b) / 2" by simp
    have "(0::real) \<le> 2 powi (- 1074)" by simp
    then have "0 \<le> a + b" using a(2) b(1) by simp
    from fl_cases_nonneg [OF this]
    show ?thesis
    proof
      assume "fl (a + b) = PInf \<and> 2 ^ 1024 \<le> rnd (a + b)"
      then show ?thesis using a Fin by simp
    next
      assume c: "fl (a + b) = Fin (rnd (a + b)) \<and> rnd (a + b) < 2 ^ 1024"
      have "fl (2 * 2 powi (- 1074)) = Fin (2 * 2 powi (- 1074))"
        using fl_dyadic [of "2 * 2 powi (- 1074)" 2 "- 1074"] by simp
      moreover have "2 * 2 powi (- 1074) \<le> a + b"
        using \<open>2 powi (- 1074) \<le> a\<close> \<open>2 powi (- 1074) \<le> b\<close> by linarith
      ultimately have "2 * 2 powi (- 1074) \<le> rnd (a + b)"
        using fl_ge_cases [of "2 * 2 powi (- 1074)" "a + b"] c by auto
      then have "2 powi (- 1074) \<le> 1 / 2 * rnd (a + b)" by simp
      from fl_ge_cases [OF min_subnormal _ this]
      show ?thesis using a Fin c by auto
    qed
  qed (use assms a in \<open>auto simp: js_gt_def\<close>)
qed

lemma asin_one_deg:
  "js_div (js_mul (Fin (7074237752028440 / 2 ^ 52)) (Fin 180)) Math_PI = Fin 90"
proof -
  have a: "fl (7074237752028440 / 2 ^ 52 * 180) = Fin (4974073419394997 / 2 ^ 44)"
    by (subst fl_eval [where e = 8]) (simp_all add: rne_def Let_def)
  have b: "fl (4974073419394997 / 2 ^ 44 / (7074237752028440 / 2 ^ 51)) = Fin 90"
    by (subst fl_eval [where e = 6]) (simp_all add: rne_def Let_def)
  show ?thesis using a b by (simp add: Math_PI_def)
qed

text \<open>
  C6, as stated, fails when both sides of the comparison overflow: for the null points
  \<open>2\<^sup>1\<^sup>0\<^sup>2\<^sup>3\<close> and \<open>3 * 2\<^sup>1\<^sup>0\<^sup>2\<^sup>2\<close> the linear offset and the effective length are both
  \<open>Infinity\<close>, the check passes, and the offset angle is \<open>asin(Infinity / Infinity)\<close>, that
  is \<open>NaN\<close>, not 90.
\<close>

theorem boundary_equal_counterexample:
  "\<forall>approx. \<exists>g. calculateGeometry approx (Fin 1) (Fin (2 ^ 1023)) (Fin (3 * 2 ^ 1022)) = Inr g \<and>
     linearOffset g = PInf \<and> effectiveLength g = PInf \<and> offsetAngleDeg g = NaN"
proof -
  have a: "fl (2 ^ 1023 * (3 * 2 ^ 1022)) = PInf" by (rule fl_overflow) simp
  have b: "fl (2 ^ 1023 + 3 * 2 ^ 1022) = PInf" by (rule fl_overflow) simp
  have c: "fl 1 = Fin 1" using fl_int [of 1] by simp
  show ?thesis
    using a b c by (simp add: calculateGeometry_def Let_def js_gt_def js_ge_def)
qed

text \<open>
  C6, amended. The check \<^verbatim>\<open>linearOffset > effectiveLength\<close> is strict: for arguments that
  pass the first three guards and whose computed linear offset equals the computed
  effective length, \<^verbatim>\<open>calculateGeometry\<close> succeeds. When moreover the null points are
  binary64 values and the linear offset is finite, the offset angle is
  \<open>asin(1) * 180 / PI\<close>, which is exactly 90 when \<open>Math.asin(1)\<close> is the binary64 value
  nearest to \<open>\<pi>/2\<close>. When the linear offset is \<open>Infinity\<close>, the offset angle is \<open>NaN\<close>.
\<close>

theorem boundary_equal_is_valid:
  assumes "js_gt p (Fin 0)" and "js_gt inn (Fin 0)" and "js_lt inn out"
    and "js_mul (Fin (1 / 2)) (js_add inn out) =
         Math_sqrt (js_add (js_mul p p) (js_mul inn out))"
  shows "\<exists>g. calculateGeometry approx p inn out = Inr g \<and>
           linearOffset g = effectiveLength g \<and>
           (is_number inn \<and> is_number out \<and> isFinite (linearOffset g) \<longrightarrow>
              offsetAngleDeg g = js_div (js_mul (Math_asin approx (Fin 1)) (Fin 180)) Math_PI \<and>
              (approx 1 = 7074237752028440 / 2 ^ 52 \<longrightarrow> offsetAngleDeg g = Fin 90)) \<and>
           (linearOffset g = PInf \<longrightarrow> offsetAngleDeg g = NaN)"
proof -
  have out: "js_gt out (Fin 0)"
    using assms(2,3) by (cases inn; cases out) (auto simp: js_gt_def)
  have nge: "\<not> js_ge inn out"
    using assms(3) by (cases inn; cases out) (auto simp: js_ge_def)
  define lo where "lo = js_mul (Fin (1 / 2)) (js_add inn out)"
  have el: "Math_sqrt (js_add (js_mul p p) (js_mul inn out)) = lo"
    using assms(4) by (simp add: lo_def)
  have irr: "\<not> js_gt lo lo" by (cases lo) (auto simp: js_gt_def)
  define g where "g = \<lparr> pivotToSpindle = p, innerNull = inn, outerNull = out,
      effectiveLength = lo,
      offsetAngleDeg = js_div (js_mul (Math_asin approx (js_div lo lo)) (Fin 180)) Math_PI,
      overhang = js_sub lo p, linearOffset = lo \<rparr>"
  have run: "calculateGeometry approx p inn out = Inr g"
    using assms(1,2) out nge irr
    by (simp add: calculateGeometry_def Let_def el lo_def [symmetric] g_def)
  have angle: "offsetAngleDeg g = js_div (js_mul (Math_asin approx (Fin 1)) (Fin 180)) Math_PI \<and>
      (approx 1 = 7074237752028440 / 2 ^ 52 \<longrightarrow> offsetAngleDeg g = Fin 90)"
    if num: "is_number inn" "is_number out" and fin: "isFinite (linearOffset g)"
  proof -
    have "(0::real) < 2 powi (- 1074)" by simp
    moreover have "lo = PInf \<or> (\<exists>r. lo = Fin r \<and> 2 powi (- 1074) \<le> r)"
      unfolding lo_def using num assms(2) out nge by (rule linearOffset_pos)
    ultimately obtain r where r: "lo = Fin r" "0 < r"
      using fin by (cases lo) (auto simp: g_def simp del: power_int_minus)
    have one: "fl 1 = Fin 1" using fl_int [of 1] by simp
    have d: "js_div lo lo = Fin 1" using r one by simp
    have a: "offsetAngleDeg g = js_div (js_mul (Math_asin approx (Fin 1)) (Fin 180)) Math_PI"
      by (simp add: g_def d)
    have "offsetAngleDeg g = Fin 90" if c: "approx 1 = 7074237752028440 / 2 ^ 52"
    proof -
      have "Math_asin approx (Fin 1) = Fin (approx 1)" by simp
      then have m: "Math_asin approx (Fin 1) = Fin (7074237752028440 / 2 ^ 52)"
        by (simp only: c)
      show ?thesis by (simp only: a m asin_one_deg)
    qed
    then show ?thesis using a by blast
  qed
  have inf: "offsetAngleDeg g = NaN" if "linearOffset g = PInf"
    using that by (simp add: g_def Math_PI_def)
  have "linearOffset g = effectiveLength g" by (simp add: g_def)
  then show ?thesis using run angle inf by blast
qed

theorem boundary_equal_is_valid_witness:
  "is_number (Fin 2) \<and> is_number (Fin 8) \<and> js_gt (Fin 3) (Fin 0) \<and> js_gt (Fin 2) (Fin 0) \<and>
   js_lt (Fin 2) (Fin 8) \<and>
   js_mul (Fin (1 / 2)) (js_add (Fin 2) (Fin 8)) = Fin 5 \<and>
   Math_sqrt (js_add (js_mul (Fin 3) (Fin 3)) (js_mul (Fin 2) (Fin 8))) = Fin 5 \<and>
   (\<exists>g. calculateGeometry (\<lambda>x. if x = 1 then 7074237752028440 / 2 ^ 52 else arcsin x)
          (Fin 3) (Fin 2) (Fin 8) = Inr g \<and>
        linearOffset g = Fin 5 \<and> effectiveLength g = Fin 5 \<and> offsetAngleDeg g = Fin 90)"
proof -
  have e: "fl 2 = Fin 2" "fl 8 = Fin 8" "fl 9 = Fin 9" "fl 16 = Fin 16" "fl 25 = Fin 25"
    "fl 5 = Fin 5" "fl 10 = Fin 10"
    using fl_int [of 2] fl_int [of 8] fl_int [of 9] fl_int [of 16] fl_int [of 25]
      fl_int [of 5] fl_int [of 10] by simp_all
  have n: "is_number (Fin 2)" "is_number (Fin 8)" by (simp_all add: is_double_def e)
  have c: "js_gt (Fin 3) (Fin 0)" "js_gt (Fin 2) (Fin 0)" "js_lt (Fin 2) (Fin 8)"
    by (simp_all add: js_gt_def)
  have lo: "js_mul (Fin (1 / 2)) (js_add (Fin 2) (Fin 8)) = Fin 5" by (simp add: e)
  have el: "Math_sqrt (js_add (js_mul (Fin 3) (Fin 3)) (js_mul (Fin 2) (Fin 8))) = Fin 5"
    by (simp add: e sqrt25)
  have eq: "js_mul (Fin (1 / 2)) (js_add (Fin 2) (Fin 8)) =
      Math_sqrt (js_add (js_mul (Fin 3) (Fin 3)) (js_mul (Fin 2) (Fin 8)))"
    by (simp only: lo el)
  obtain g where g: "calculateGeometry (\<lambda>x. if x = 1 then 7074237752028440 / 2 ^ 52 else arcsin x)
          (Fin 3) (Fin 2) (Fin 8) = Inr g" "linearOffset g = effectiveLength g"
     "is_number (Fin 2) \<and> is_number (Fin 8) \<and> isFinite (linearOffset g) \<longrightarrow>
        offsetAngleDeg g = js_div (js_mul (Math_asin (\<lambda>x. if x = 1 then 7074237752028440 / 2 ^ 52 else arcsin x) (Fin 1)) (Fin 180)) Math_PI \<and>
        ((if (1::real) = 1 then 7074237752028440 / 2 ^ 52 else arcsin 1) = 7074237752028440 / 2 ^ 52 \<longrightarrow>
           offsetAngleDeg g = Fin 90)"
    using boundary_equal_is_valid [OF c eq,
        of "\<lambda>x. if x = 1 then 7074237752028440 / 2 ^ 52 else arcsin x"] by blast
  have l5: "linearOffset g = Fin 5"
    using g(1) by (auto simp: calculateGeometry_def Let_def e sqrt25 js_gt_def js_ge_def)
  have fin: "isFinite (linearOffset g)" by (simp add: l5)
  have one: "(if (1::real) = 1 then 7074237752028440 / 2 ^ 52 else arcsin 1) =
      7074237752028440 / 2 ^ 52" by simp
  have "offsetAngleDeg g = Fin 90" using g(3) n fin one by blast
  then show ?thesis using n c lo el g(1,2) l5 by auto
qed

section \<open>Absorption and underflow\<close>

lemma absorbed:
  "\<forall>approx. \<exists>g. calculateGeometry approx (Fin 212) (Fin (1 / 2 ^ 24)) (Fin (1 / 2 ^ 23)) = Inr g \<and>
     overhang g = Fin 0"
proof -
  have a: "fl (1 / 2 ^ 24 * (1 / 2 ^ 23)) = Fin (1 / 2 ^ 47)"
    using fl_frac [of 1 47] by simp
  have b: "fl (212 * 212) = Fin 44944" using fl_int [of 44944] by simp
  have c: "fl (44944 + 1 / 2 ^ 47) = Fin 44944"
    by (subst fl_eval [where e = 15]) (simp_all add: rne_def Let_def)
  have d: "sqrt 44944 = 212" by (rule real_sqrt_unique) simp_all
  have e: "fl 212 = Fin 212" using fl_int [of 212] by simp
  have f: "fl (1 / 2 ^ 24 + 1 / 2 ^ 23) = Fin (3 / 2 ^ 24)" using fl_frac [of 3 24] by simp
  have g: "fl (1 / 2 * (3 / 2 ^ 24)) = Fin (3 / 2 ^ 25)" using fl_frac [of 3 25] by simp
  show ?thesis
    using a b c d e f g
    by (simp add: calculateGeometry_def Let_def js_gt_def js_ge_def js_sub_def fl_0)
qed

lemma zero_angle:
  "\<forall>approx. \<exists>g. calculateGeometry approx (Fin (2 ^ 600)) (Fin 1) (Fin 2) = Inr g \<and>
     offsetAngleDeg g = Fin 0"
proof -
  have a: "fl (2 ^ 600 * 2 ^ 600) = PInf" by (rule fl_overflow) simp
  have b: "fl 2 = Fin 2" "fl 3 = Fin 3" using fl_int [of 2] fl_int [of 3] by simp_all
  have c: "fl (3 / 2) = Fin (3 / 2)" using fl_frac [of 3 1] by simp
  show ?thesis
    using a b c
    by (simp add: calculateGeometry_def Let_def js_gt_def js_ge_def fl_0 Math_PI_def)
qed

lemma rne_ge_half: "of_int m - 1 / 2 < t \<Longrightarrow> m \<le> rne t"
proof -
  assume a: "of_int m - 1 / 2 < t"
  then have "m - 1 \<le> \<lfloor>t\<rfloor>" by linarith
  then consider "m \<le> \<lfloor>t\<rfloor>" | "\<lfloor>t\<rfloor> = m - 1" by linarith
  then show ?thesis
  proof cases
    case 1
    then show ?thesis using rne_floor_le [of t] by linarith
  next
    case 2
    then have "1 / 2 < t - of_int \<lfloor>t\<rfloor>" using a by simp
    then show ?thesis using 2 unfolding rne_def Let_def by simp
  qed
qed

lemma expo_pow2: "- 1022 \<le> e \<Longrightarrow> expo (2 powi e) = e"
  by (rule expo_normal) (auto intro: power_int_strict_increasing)

lemma rnd_idem:
  assumes "0 \<le> x"
  shows "rnd (rnd x) = rnd x"
proof (cases "x = 0")
  case True
  then show ?thesis by (simp add: rnd_0)
next
  case False
  then have x: "0 < x" using assms by simp
  define k where "k = rne (x / ulp x)"
  have r: "rnd x = of_int k * ulp x" by (simp add: rnd_def k_def)
  have k0: "0 \<le> k" unfolding k_def using x ulp_pos [of x] by (intro rne_ge_int) simp
  have "of_int k * ulp x \<le> 2 powi 53 * ulp x"
    using rnd_upper [OF x] r by (simp only: ulp_53)
  then have "of_int k \<le> (2 powi 53 :: real)" using ulp_pos [of x] by simp
  then have "k \<le> 2 ^ 53" by (simp add: of_int_le_iff [symmetric] del: of_int_le_iff)
  then consider "k < 2 ^ 53" | "k = 2 ^ 53" by linarith
  then show ?thesis
  proof cases
    case 1
    show ?thesis
      using rnd_dyadic [of "rnd x" k "expo x - 52"] r 1 k0 expo_ge [of x]
      by (simp add: ulp_powi)
  next
    case 2
    have "rnd x = 2 powi (expo x + 1)" unfolding r 2 using ulp_53 [of x] by simp
    then show ?thesis
      using rnd_dyadic [of "rnd x" 1 "expo x + 1"] expo_ge [of x] by simp
  qed
qed

lemma js_le_trans: "js_le a b \<Longrightarrow> js_le b c \<Longrightarrow> js_le a c"
  by (cases a; cases b; cases c) (auto simp: js_le_def js_ge_def)

text \<open>
  The square root of the rounded square of a binary64 value is not below that value, as
  long as the square does not underflow.
\<close>

lemma sqrt_square_ge:
  assumes "fl c = Fin c" and "2 powi (- 511) \<le> c"
  shows "fl (c * c) = PInf \<or>
         (\<exists>q. fl (c * c) = Fin q \<and> q = rnd (c * c) \<and> 0 \<le> q \<and> js_le (Fin c) (fl (sqrt q)))"
proof -
  have c0: "0 < c" using assms(2) by (smt (verit) zero_less_power_int)
  define e where "e = expo c"
  define u where "u = ulp c"
  define m where "m = rne (c / u)"
  have u0: "0 < u" by (simp add: u_def ulp_pos)
  have e511: "- 511 \<le> e"
    using expo_mono [of "2 powi (- 511)" c] assms(2) expo_pow2 [of "- 511"]
    by (simp add: e_def del: power_int_minus)
  have rc: "rnd c = c" using fl_cases_nonneg [of c] assms(1) c0 by auto
  have cm: "c = of_int m * u" using rc by (simp add: rnd_def m_def u_def)
  have lo: "2 powi e \<le> c" using expo_lower [of c] c0 e511 by (simp add: e_def)
  have hi: "c < 2 powi (e + 1)" using expo_upper [of c] c0 by (simp add: e_def)
  have u52: "2 powi 52 * u = 2 powi e" by (simp only: u_def e_def ulp_52)
  have u53: "2 powi 53 * u = 2 powi (e + 1)" by (simp only: u_def e_def ulp_53)
  have "2 powi 52 * u \<le> of_int m * u" using lo cm u52 by simp
  then have m52: "2 ^ 52 \<le> m"
    using u0 by (simp add: of_int_le_iff [symmetric] del: of_int_le_iff)
  have sq0: "0 \<le> c * c" by simp
  from fl_cases_nonneg [OF sq0]
  show ?thesis
  proof
    assume "fl (c * c) = PInf \<and> 2 ^ 1024 \<le> rnd (c * c)"
    then show ?thesis by simp
  next
    assume fin: "fl (c * c) = Fin (rnd (c * c)) \<and> rnd (c * c) < 2 ^ 1024"
    define q where "q = rnd (c * c)"
    have q0: "0 \<le> q" unfolding q_def by (rule rnd_nonneg) simp
    have "js_le (Fin c) (fl (sqrt q))"
    proof (cases "m = 2 ^ 52")
      case True
      then have "c = 2 powi e" using cm u52 by simp
      then have "c * c = 2 powi e * 2 powi e" by simp
      then have "c * c = of_int 1 * 2 powi (e + e)" by (simp only: pow2_add of_int_1 mult_1)
      then have "rnd (c * c) = c * c"
        using e511 by (intro rnd_dyadic [where n = 1 and k = "e + e"]) auto
      then have "sqrt q = c" using c0 by (simp add: q_def)
      then show ?thesis using assms(1) by (simp add: js_le_def js_ge_def)
    next
      case False
      then have m1: "2 ^ 52 + 1 \<le> m" using m52 by simp
      have uu: "u * u = 2 powi (e + e - 104)"
        unfolding u_def ulp_powi e_def [symmetric] pow2_add
        by (rule arg_cong [where f = "\<lambda>k. 2 powi k"]) simp
      have cc_hi: "c * c < 2 powi (e + e + 2)"
      proof -
        have "c * c < 2 powi (e + 1) * 2 powi (e + 1)"
          using hi c0 by (intro mult_strict_mono) auto
        also have "\<dots> = 2 powi (e + e + 2)"
          unfolding pow2_add by (rule arg_cong [where f = "\<lambda>k. 2 powi k"]) simp
        finally show ?thesis .
      qed
      have e2: "expo (c * c) \<le> e + e + 1"
      proof (rule ccontr)
        assume "\<not> expo (c * c) \<le> e + e + 1"
        then have g: "e + e + 2 \<le> expo (c * c)" by simp
        then have "- 1022 < expo (c * c)" using e511 by simp
        then have "2 powi (expo (c * c)) \<le> c * c"
          using expo_lower [of "c * c"] c0 by simp
        moreover have "(2::real) powi (e + e + 2) \<le> 2 powi (expo (c * c))"
          using g by (intro power_int_increasing) auto
        ultimately show False using cc_hi by linarith
      qed
      have "ulp (c * c) \<le> 2 powi (e + e + 1 - 52)"
        unfolding ulp_powi using e2 by (intro power_int_increasing) auto
      also have "\<dots> = 2 * (2 ^ 52 * (u * u))"
      proof -
        have "2 * (2 ^ 52 * (u * u)) = 2 powi 1 * (2 powi 52 * 2 powi (e + e - 104))"
          by (simp add: uu)
        also have "\<dots> = 2 powi (1 + (52 + (e + e - 104)))" by (simp only: pow2_add)
        also have "\<dots> = 2 powi (e + e + 1 - 52)"
          by (rule arg_cong [where f = "\<lambda>k. 2 powi k"]) simp
        finally show ?thesis by simp
      qed
      finally have ulp_cc: "ulp (c * c) / 2 \<le> 2 ^ 52 * (u * u)" by simp
      have "\<bar>q - c * c\<bar> \<le> ulp (c * c) / 2" unfolding q_def by (rule rnd_error)
      then have qlow: "c * c - 2 ^ 52 * (u * u) \<le> q" using ulp_cc by linarith
      define h where "h = (of_int m - 1 / 2) * u"
      have mr: "2 ^ 52 + 1 \<le> (of_int m :: real)"
        using m1 by (simp add: of_int_le_iff [symmetric] del: of_int_le_iff)
      have h0: "0 < h" unfolding h_def using mr u0 by (intro mult_pos_pos) auto
      have "h * h = (of_int m * of_int m - of_int m + 1 / 4) * (u * u)"
        by (simp add: h_def algebra_simps)
      also have "\<dots> < (of_int m * of_int m - 2 ^ 52) * (u * u)"
        using mr u0 by (intro mult_strict_right_mono) auto
      also have "\<dots> = c * c - 2 ^ 52 * (u * u)" by (simp add: cm algebra_simps)
      finally have "h\<^sup>2 < q" using qlow by (simp add: power2_eq_square)
      then have hy: "h < sqrt q" by (rule real_less_rsqrt)
      define y where "y = sqrt q"
      have "2 powi e \<le> h"
      proof -
        have "2 powi 52 * u \<le> (of_int m - 1 / 2) * u"
          using mr u0 by (intro mult_right_mono) auto
        then show ?thesis by (simp only: u52 h_def)
      qed
      then have ey: "2 powi e < y" using hy by (simp add: y_def)
      then have y0: "0 < y" by (smt (verit) zero_less_power_int)
      have "expo (2 powi e) \<le> expo y" using ey by (intro expo_mono) auto
      then have ee: "e \<le> expo y" using expo_pow2 [of e] e511 by simp
      have "c \<le> rnd y"
      proof (cases "expo y = e")
        case True
        then have uy: "ulp y = u" by (simp add: ulp_def u_def e_def)
        have "of_int m - 1 / 2 < y / u" using hy u0 by (simp add: h_def y_def field_simps)
        then have "m \<le> rne (y / u)" by (rule rne_ge_half)
        then have "of_int m * u \<le> of_int (rne (y / u)) * u"
          using u0 by (intro mult_right_mono) auto
        then show ?thesis by (simp add: rnd_def uy cm [symmetric])
      next
        case False
        then have g: "e + 1 \<le> expo y" using ee by simp
        then have "- 1022 < expo y" using e511 by simp
        then have "2 powi (expo y) \<le> rnd y" using rnd_lower [OF y0] by simp
        moreover have "(2::real) powi (e + 1) \<le> 2 powi (expo y)"
          using g by (intro power_int_increasing) auto
        ultimately show ?thesis using hi by linarith
      qed
      then show ?thesis
        using fl_cases_nonneg [of y] y0
        by (auto simp: js_le_def js_ge_def y_def [symmetric])
    qed
    then show ?thesis using fin q0 by (auto simp: q_def)
  qed
qed

lemma pos_cases: "js_gt x (Fin 0) \<longleftrightarrow> x = PInf \<or> (\<exists>r. x = Fin r \<and> 0 < r)"
  by (cases x) (auto simp: js_gt_def)

lemma nonneg_cases: "js_ge x (Fin 0) \<longleftrightarrow> x = PInf \<or> (\<exists>r. x = Fin r \<and> 0 \<le> r)"
  by (cases x) (auto simp: js_ge_def)

lemma fl_nonneg: "0 \<le> x \<Longrightarrow> js_ge (fl x) (Fin 0)"
  using fl_cases_nonneg [of x] rnd_nonneg [of x] by (auto simp: nonneg_cases)

lemma mul_nonneg: "js_gt x (Fin 0) \<Longrightarrow> js_gt y (Fin 0) \<Longrightarrow> js_ge (js_mul x y) (Fin 0)"
  by (auto simp: pos_cases fl_nonneg) (simp_all add: js_ge_def)

lemma add_nonneg: "js_ge x (Fin 0) \<Longrightarrow> js_ge y (Fin 0) \<Longrightarrow> js_ge (js_add x y) (Fin 0)"
  by (auto simp: nonneg_cases [of x] nonneg_cases [of y] fl_nonneg) (simp_all add: js_ge_def)

lemma sqrt_nonneg: "js_ge x (Fin 0) \<Longrightarrow> js_ge (Math_sqrt x) (Fin 0)"
  by (auto simp: nonneg_cases [of x] fl_nonneg) (simp_all add: js_ge_def)

text \<open>What a successful call has passed, and what it returns.\<close>

lemma calculateGeometry_InrD:
  assumes "calculateGeometry approx p inn out = Inr g"
  shows "js_gt p (Fin 0)" "js_gt inn (Fin 0)" "js_gt out (Fin 0)" "\<not> js_ge inn out"
    "\<not> js_gt (js_mul (Fin (1 / 2)) (js_add inn out))
             (Math_sqrt (js_add (js_mul p p) (js_mul inn out)))"
    "g = \<lparr> pivotToSpindle = p, innerNull = inn, outerNull = out,
           effectiveLength = Math_sqrt (js_add (js_mul p p) (js_mul inn out)),
           offsetAngleDeg =
             js_div (js_mul (Math_asin approx
                 (js_div (js_mul (Fin (1 / 2)) (js_add inn out))
                         (Math_sqrt (js_add (js_mul p p) (js_mul inn out))))) (Fin 180)) Math_PI,
           overhang = js_sub (Math_sqrt (js_add (js_mul p p) (js_mul inn out))) p,
           linearOffset = js_mul (Fin (1 / 2)) (js_add inn out) \<rparr>"
  using assms by (auto simp: calculateGeometry_def Let_def split: if_splits)

lemma effectiveLength_nonneg:
  assumes "js_gt p (Fin 0)" "js_gt inn (Fin 0)" "js_gt out (Fin 0)"
  shows "js_ge (Math_sqrt (js_add (js_mul p p) (js_mul inn out))) (Fin 0)"
  using assms by (intro sqrt_nonneg add_nonneg mul_nonneg)

lemma effectiveLength_ge_pivot:
  assumes "fl c = Fin c" and "2 powi (- 511) \<le> c" and "js_ge t (Fin 0)"
  shows "js_le (Fin c) (Math_sqrt (js_add (js_mul (Fin c) (Fin c)) t))"
proof -
  from sqrt_square_ge [OF assms(1,2)]
  show ?thesis
  proof
    assume "fl (c * c) = PInf"
    moreover from assms(3) have "t = PInf \<or> (\<exists>r. t = Fin r)" by (auto simp: nonneg_cases)
    ultimately show ?thesis by (auto simp: js_le_def js_ge_def)
  next
    assume "\<exists>q. fl (c * c) = Fin q \<and> q = rnd (c * c) \<and> 0 \<le> q \<and> js_le (Fin c) (fl (sqrt q))"
    then obtain q where q: "fl (c * c) = Fin q" "q = rnd (c * c)" "0 \<le> q"
      "js_le (Fin c) (fl (sqrt q))" by blast
    have rq: "rnd q = q" unfolding q(2) by (rule rnd_idem) simp
    from assms(3) consider "t = PInf" | r where "t = Fin r" "0 \<le> r"
      by (auto simp: nonneg_cases)
    then show ?thesis
    proof cases
      case 1
      then show ?thesis using q(1) by (simp add: js_le_def js_ge_def)
    next
      case 2
      have s0: "0 \<le> q + r" using q(3) 2(2) by simp
      from fl_cases_nonneg [OF s0]
      show ?thesis
      proof
        assume "fl (q + r) = PInf \<and> 2 ^ 1024 \<le> rnd (q + r)"
        then show ?thesis using q(1) 2(1) by (simp add: js_le_def js_ge_def)
      next
        assume f: "fl (q + r) = Fin (rnd (q + r)) \<and> rnd (q + r) < 2 ^ 1024"
        have "rnd q \<le> rnd (q + r)" using q(3) 2(2) by (intro rnd_mono) auto
        then have qs: "q \<le> rnd (q + r)" by (simp only: rq)
        then have "sqrt q \<le> sqrt (rnd (q + r))" by simp
        then have "js_le (fl (sqrt q)) (fl (sqrt (rnd (q + r))))"
          using q(3) by (intro fl_mono) auto
        then have "js_le (Fin c) (fl (sqrt (rnd (q + r))))"
          using q(4) js_le_trans by blast
        moreover have "\<not> rnd (q + r) < 0" using qs q(3) by linarith
        ultimately show ?thesis using q(1) 2(1) f by simp
      qed
    qed
  qed
qed

section \<open>The effective length against the pivot-to-spindle distance\<close>

text \<open>
  C4, as stated, fails where the square of the pivot-to-spindle distance underflows: for
  \<open>p = 3 * 2\<^sup>-\<^sup>5\<^sup>3\<^sup>8\<close> the product \<open>p * p\<close> is rounded down to \<open>2\<^sup>-\<^sup>1\<^sup>0\<^sup>7\<^sup>3\<close>, the product of the
  null points \<open>2\<^sup>-\<^sup>6\<^sup>0\<^sup>0\<close> and \<open>2\<^sup>-\<^sup>5\<^sup>9\<^sup>9\<close> underflows to zero, the call succeeds, and the
  effective length it returns is below \<open>p\<close>.
\<close>

theorem effectiveLength_underflow_counterexample:
  "\<forall>approx. \<exists>g.
     calculateGeometry approx (Fin (3 / 2 ^ 538)) (Fin (1 / 2 ^ 600)) (Fin (1 / 2 ^ 599)) = Inr g \<and>
     effectiveLength g = Fin (6369051672525773 / 2 ^ 589) \<and>
     (6369051672525773 / 2 ^ 589 :: real) < 3 / 2 ^ 538"
proof -
  have a: "fl (3 / 2 ^ 538 * (3 / 2 ^ 538)) = Fin (1 / 2 ^ 1073)"
    by (subst fl_eval_sub) (simp_all add: rne_def Let_def)
  have b: "fl (1 / 2 ^ 600 * (1 / 2 ^ 599)) = Fin 0"
    by (subst fl_eval_sub) (simp_all add: rne_def Let_def)
  have c: "fl (1 / 2 ^ 1073) = Fin (1 / 2 ^ 1073)" using fl_frac [of 1 1073] by simp
  have d: "fl (sqrt (1 / 2 ^ 1073)) = Fin (6369051672525773 / 2 ^ 589)"
    using fl_sqrt_eval [where e = "- 537" and n = 6369051672525773 and v = "1 / 2 ^ 1073"]
    by (simp add: power2_eq_square)
  have e: "fl (1 / 2 ^ 600 + 1 / 2 ^ 599) = Fin (3 / 2 ^ 600)" using fl_frac [of 3 600] by simp
  have f: "fl (1 / 2 * (3 / 2 ^ 600)) = Fin (3 / 2 ^ 601)" using fl_frac [of 3 601] by simp
  show ?thesis
    using a b c d e f
    by (simp add: calculateGeometry_def Let_def js_gt_def js_ge_def)
qed

text \<open>
  C4, amended. For binary64 arguments on which \<^verbatim>\<open>calculateGeometry\<close> succeeds, the
  effective length is strictly positive, and it is at least the pivot-to-spindle distance
  whenever that distance is at least \<open>2\<^sup>-\<^sup>5\<^sup>1\<^sup>1\<close>, so that its square does not underflow.
\<close>

theorem effectiveLength_bounds:
  assumes "is_number p" and "is_number inn" and "is_number out"
    and "calculateGeometry approx p inn out = Inr g"
  shows "js_gt (effectiveLength g) (Fin 0) \<and>
         (js_ge p (Fin (1 / 2 ^ 511)) \<longrightarrow> js_ge (effectiveLength g) p)"
proof -
  note d = calculateGeometry_InrD [OF assms(4)]
  define lo where "lo = js_mul (Fin (1 / 2)) (js_add inn out)"
  define el where "el = Math_sqrt (js_add (js_mul p p) (js_mul inn out))"
  have el: "effectiveLength g = el" by (simp add: d(6) el_def)
  have nn: "js_ge el (Fin 0)" unfolding el_def using d(1-3) by (rule effectiveLength_nonneg)
  have pos: "js_gt el (Fin 0)"
  proof -
    have "(0::real) < 2 powi (- 1074)" by simp
    moreover have "lo = PInf \<or> (\<exists>r. lo = Fin r \<and> 2 powi (- 1074) \<le> r)"
      unfolding lo_def using assms(2,3) d(2-4) by (rule linearOffset_pos)
    moreover have "\<not> js_lt el lo" using d(5) by (simp add: js_gt_def lo_def el_def)
    ultimately show ?thesis
      using nn by (cases el; cases lo) (auto simp: js_gt_def js_ge_def simp del: power_int_minus)
  qed
  have "js_ge el p" if big: "js_ge p (Fin (1 / 2 ^ 511))"
  proof (cases p)
    case (Fin c)
    have "fl c = Fin c" using assms(1) Fin by (simp add: is_double_def)
    moreover have "2 powi (- 511) \<le> c" using big Fin by (simp add: js_ge_def)
    moreover have "js_ge (js_mul inn out) (Fin 0)" using d(2,3) by (rule mul_nonneg)
    ultimately have "js_le (Fin c) (Math_sqrt (js_add (js_mul (Fin c) (Fin c)) (js_mul inn out)))"
      by (rule effectiveLength_ge_pivot)
    then show ?thesis by (simp add: js_le_def el_def Fin)
  next
    case PInf
    have "js_ge (js_mul inn out) (Fin 0)" using d(2,3) by (rule mul_nonneg)
    then have "el = PInf" unfolding el_def PInf by (auto simp: nonneg_cases)
    then show ?thesis by (simp add: PInf js_ge_def)
  qed (use big in \<open>auto simp: js_ge_def\<close>)
  then show ?thesis using pos el by simp
qed

theorem effectiveLength_bounds_witness:
  "is_number (Fin 2) \<and> is_number (Fin 3) \<and> is_number (Fin 4) \<and>
   js_ge (Fin 2) (Fin (1 / 2 ^ 511)) \<and>
   (\<forall>approx. \<exists>g. calculateGeometry approx (Fin 2) (Fin 3) (Fin 4) = Inr g \<and>
      effectiveLength g = Fin 4 \<and>
      js_gt (effectiveLength g) (Fin 0) \<and> js_ge (effectiveLength g) (Fin 2))"
proof -
  have e: "fl 2 = Fin 2" "fl 3 = Fin 3" "fl 4 = Fin 4" "fl 12 = Fin 12" "fl 16 = Fin 16"
    "fl 7 = Fin 7"
    using fl_int [of 2] fl_int [of 3] fl_int [of 4] fl_int [of 12] fl_int [of 16] fl_int [of 7]
    by simp_all
  have f: "fl (7 / 2) = Fin (7 / 2)" using fl_frac [of 7 1] by simp
  have n: "is_number (Fin 2)" "is_number (Fin 3)" "is_number (Fin 4)"
    by (simp_all add: is_double_def e)
  have b: "js_ge (Fin 2) (Fin (1 / 2 ^ 511))" by (simp add: js_ge_def)
  have "\<exists>g. calculateGeometry approx (Fin 2) (Fin 3) (Fin 4) = Inr g \<and>
      effectiveLength g = Fin 4 \<and>
      js_gt (effectiveLength g) (Fin 0) \<and> js_ge (effectiveLength g) (Fin 2)" for approx
  proof -
    obtain g where g: "calculateGeometry approx (Fin 2) (Fin 3) (Fin 4) = Inr g"
      "effectiveLength g = Fin 4"
      by (simp add: calculateGeometry_def Let_def e f sqrt16 js_gt_def js_ge_def)
    from effectiveLength_bounds [OF n g(1)] b g show ?thesis by blast
  qed
  then show ?thesis using n b by blast
qed

lemma fl_upper:
  assumes "0 \<le> x" "x \<le> ub" "fl ub = Fin v"
  shows "\<exists>r. fl x = Fin r \<and> 0 \<le> r \<and> r \<le> v"
proof -
  have "js_le (fl x) (Fin v)" using fl_mono [OF assms(1,2)] assms(3) by simp
  then show ?thesis
    using fl_cases_nonneg [OF assms(1)] rnd_nonneg [OF assms(1)]
    by (auto simp: js_le_def js_ge_def)
qed

lemma half_pi_times_180:
  "fl (7074237752028440 / 2 ^ 52 * 180) = Fin (4974073419394997 / 2 ^ 44)"
  by (subst fl_eval [where e = 8]) (simp_all add: rne_def Let_def)

lemma degrees_90:
  "fl (4974073419394997 / 2 ^ 44 / (7074237752028440 / 2 ^ 51)) = Fin 90"
  by (subst fl_eval [where e = 6]) (simp_all add: rne_def Let_def)

lemma angle_range:
  assumes "0 \<le> a" "a \<le> 7074237752028440 / 2 ^ 52"
  shows "\<exists>ang. js_div (js_mul (Fin a) (Fin 180)) Math_PI = Fin ang \<and> 0 \<le> ang \<and> ang \<le> 90"
proof -
  have "0 \<le> a * 180" "a * 180 \<le> 7074237752028440 / 2 ^ 52 * 180" using assms by simp_all
  from fl_upper [OF this half_pi_times_180]
  obtain t where t: "fl (a * 180) = Fin t" "0 \<le> t" "t \<le> 4974073419394997 / 2 ^ 44" by blast
  have "0 \<le> t / (7074237752028440 / 2 ^ 51)"
    "t / (7074237752028440 / 2 ^ 51) \<le> 4974073419394997 / 2 ^ 44 / (7074237752028440 / 2 ^ 51)"
    using t(2,3) by (simp_all add: divide_right_mono)
  from fl_upper [OF this degrees_90]
  obtain ang where "fl (t / (7074237752028440 / 2 ^ 51)) = Fin ang" "0 \<le> ang" "ang \<le> 90"
    by blast
  then show ?thesis using t(1) by (simp add: Math_PI_def)
qed

section \<open>The fields of a result record\<close>

lemma underflow_overhang:
  "\<forall>approx. \<exists>g.
     calculateGeometry approx (Fin (3 / 2 ^ 538)) (Fin (1 / 2 ^ 600)) (Fin (1 / 2 ^ 599)) = Inr g \<and>
     overhang g = Fin (- (386347768529971 / 2 ^ 589))"
proof -
  have a: "fl (3 / 2 ^ 538 * (3 / 2 ^ 538)) = Fin (1 / 2 ^ 1073)"
    by (subst fl_eval_sub) (simp_all add: rne_def Let_def)
  have b: "fl (1 / 2 ^ 600 * (1 / 2 ^ 599)) = Fin 0"
    by (subst fl_eval_sub) (simp_all add: rne_def Let_def)
  have c: "fl (1 / 2 ^ 1073) = Fin (1 / 2 ^ 1073)" using fl_frac [of 1 1073] by simp
  have d: "fl (sqrt (1 / 2 ^ 1073)) = Fin (6369051672525773 / 2 ^ 589)"
    using fl_sqrt_eval [where e = "- 537" and n = 6369051672525773 and v = "1 / 2 ^ 1073"]
    by (simp add: power2_eq_square)
  have e: "fl (1 / 2 ^ 600 + 1 / 2 ^ 599) = Fin (3 / 2 ^ 600)" using fl_frac [of 3 600] by simp
  have f: "fl (1 / 2 * (3 / 2 ^ 600)) = Fin (3 / 2 ^ 601)" using fl_frac [of 3 601] by simp
  have g: "fl (6369051672525773 / 2 ^ 589 + - (3 / 2 ^ 538)) = Fin (- (386347768529971 / 2 ^ 589))"
    using fl_frac [of "- 386347768529971" 589] by simp
  show ?thesis
    using a b c d e f g
    by (simp add: calculateGeometry_def Let_def js_gt_def js_ge_def js_sub_def)
qed

lemma overflow_angle:
  "\<forall>approx. \<exists>g. calculateGeometry approx (Fin 1) (Fin (2 ^ 1023)) (Fin (3 * 2 ^ 1022)) = Inr g \<and>
     linearOffset g = PInf \<and> offsetAngleDeg g = NaN"
proof -
  have a: "fl (2 ^ 1023 * (3 * 2 ^ 1022)) = PInf" by (rule fl_overflow) simp
  have b: "fl (2 ^ 1023 + 3 * 2 ^ 1022) = PInf" by (rule fl_overflow) simp
  have c: "fl 1 = Fin 1" using fl_int [of 1] by simp
  show ?thesis
    using a b c by (simp add: calculateGeometry_def Let_def js_gt_def js_ge_def)
qed

lemma infinite_pivot:
  "\<forall>approx. \<exists>g. calculateGeometry approx PInf (Fin 1) (Fin 2) = Inr g \<and> overhang g = NaN"
proof -
  have b: "fl 2 = Fin 2" "fl 3 = Fin 3" using fl_int [of 2] fl_int [of 3] by simp_all
  have c: "fl (3 / 2) = Fin (3 / 2)" using fl_frac [of 3 1] by simp
  show ?thesis
    using b c by (simp add: calculateGeometry_def Let_def js_gt_def js_ge_def js_sub_def)
qed

text \<open>
  C10, as stated, fails. With the pivot-to-spindle distance 212 and the null points
  \<open>2\<^sup>-\<^sup>2\<^sup>4\<close> and \<open>2\<^sup>-\<^sup>2\<^sup>3\<close> the product of the null points is absorbed when it is added to
  \<open>212 * 212\<close>: the effective length is 212 and the overhang is exactly 0. With the
  pivot-to-spindle distance \<open>2\<^sup>6\<^sup>0\<^sup>0\<close> the effective length overflows and the offset angle
  is exactly 0. The weaker bounds fail too, outside the normal range: the overhang is
  negative when the square of the pivot-to-spindle distance underflows, and \<open>NaN\<close> when
  that distance is \<open>Infinity\<close>; the offset angle is \<open>NaN\<close> when the linear offset overflows.
\<close>

theorem result_record_counterexample:
  "(\<forall>approx. \<exists>g.
      calculateGeometry approx (Fin 212) (Fin (1 / 2 ^ 24)) (Fin (1 / 2 ^ 23)) = Inr g \<and>
      overhang g = Fin 0 \<and> \<not> js_gt (overhang g) (Fin 0)) \<and>
   (\<forall>approx. \<exists>g.
      calculateGeometry approx (Fin (2 ^ 600)) (Fin 1) (Fin 2) = Inr g \<and>
      offsetAngleDeg g = Fin 0 \<and> \<not> js_gt (offsetAngleDeg g) (Fin 0)) \<and>
   (\<forall>approx. \<exists>g.
      calculateGeometry approx (Fin (3 / 2 ^ 538)) (Fin (1 / 2 ^ 600)) (Fin (1 / 2 ^ 599)) = Inr g \<and>
      overhang g = Fin (- (386347768529971 / 2 ^ 589)) \<and> \<not> js_ge (overhang g) (Fin 0)) \<and>
   (\<forall>approx. \<exists>g.
      calculateGeometry approx PInf (Fin 1) (Fin 2) = Inr g \<and>
      overhang g = NaN \<and> \<not> js_ge (overhang g) (Fin 0)) \<and>
   (\<forall>approx. \<exists>g.
      calculateGeometry approx (Fin 1) (Fin (2 ^ 1023)) (Fin (3 * 2 ^ 1022)) = Inr g \<and>
      offsetAngleDeg g = NaN \<and> \<not> js_ge (offsetAngleDeg g) (Fin 0) \<and>
      \<not> js_le (offsetAngleDeg g) (Fin 90))"
proof (intro conjI allI)
  fix approx
  obtain g where "calculateGeometry approx (Fin 212) (Fin (1 / 2 ^ 24)) (Fin (1 / 2 ^ 23)) = Inr g"
    "overhang g = Fin 0" using absorbed by blast
  then show "\<exists>g. calculateGeometry approx (Fin 212) (Fin (1 / 2 ^ 24)) (Fin (1 / 2 ^ 23)) = Inr g \<and>
      overhang g = Fin 0 \<and> \<not> js_gt (overhang g) (Fin 0)"
    by (auto simp: js_gt_def)
next
  fix approx
  obtain g where "calculateGeometry approx (Fin (2 ^ 600)) (Fin 1) (Fin 2) = Inr g"
    "offsetAngleDeg g = Fin 0" using zero_angle by blast
  then show "\<exists>g. calculateGeometry approx (Fin (2 ^ 600)) (Fin 1) (Fin 2) = Inr g \<and>
      offsetAngleDeg g = Fin 0 \<and> \<not> js_gt (offsetAngleDeg g) (Fin 0)"
    by (auto simp: js_gt_def)
next
  fix approx
  obtain g where
    "calculateGeometry approx (Fin (3 / 2 ^ 538)) (Fin (1 / 2 ^ 600)) (Fin (1 / 2 ^ 599)) = Inr g"
    "overhang g = Fin (- (386347768529971 / 2 ^ 589))" using underflow_overhang by blast
  then show "\<exists>g.
      calculateGeometry approx (Fin (3 / 2 ^ 538)) (Fin (1 / 2 ^ 600)) (Fin (1 / 2 ^ 599)) = Inr g \<and>
      overhang g = Fin (- (386347768529971 / 2 ^ 589)) \<and> \<not> js_ge (overhang g) (Fin 0)"
    by (auto simp: js_ge_def)
next
  fix approx
  obtain g where "calculateGeometry approx PInf (Fin 1) (Fin 2) = Inr g" "overhang g = NaN"
    using infinite_pivot by blast
  then show "\<exists>g. calculateGeometry approx PInf (Fin 1) (Fin 2) = Inr g \<and>
      overhang g = NaN \<and> \<not> js_ge (overhang g) (Fin 0)"
    by (auto simp: js_ge_def)
next
  fix approx
  obtain g where
    "calculateGeometry approx (Fin 1) (Fin (2 ^ 1023)) (Fin (3 * 2 ^ 1022)) = Inr g"
    "offsetAngleDeg g = NaN" using overflow_angle by blast
  then show "\<exists>g.
      calculateGeometry approx (Fin 1) (Fin (2 ^ 1023)) (Fin (3 * 2 ^ 1022)) = Inr g \<and>
      offsetAngleDeg g = NaN \<and> \<not> js_ge (offsetAngleDeg g) (Fin 0) \<and>
      \<not> js_le (offsetAngleDeg g) (Fin 90)"
    by (auto simp: js_ge_def js_le_def)
qed

text \<open>
  C10, amended. Every result record echoes the three arguments. For binary64 null
  points its offset angle lies between 0 and 90, both bounds included, when the linear
  offset is finite and \<open>Math.asin\<close> maps \<open>(0, 1]\<close> into the interval from 0 to the binary64
  value of \<open>\<pi>/2\<close>. Its overhang is at least 0 when the pivot-to-spindle distance is a
  finite binary64 value of at least \<open>2\<^sup>-\<^sup>5\<^sup>1\<^sup>1\<close>.
\<close>

theorem result_record_bounds:
  assumes "calculateGeometry approx p inn out = Inr g"
  shows "pivotToSpindle g = p \<and> innerNull g = inn \<and> outerNull g = out \<and>
         (is_number inn \<and> is_number out \<and> isFinite (linearOffset g) \<and>
          (\<forall>x. 0 < x \<and> x \<le> 1 \<longrightarrow> 0 \<le> approx x \<and> approx x \<le> 7074237752028440 / 2 ^ 52) \<longrightarrow>
            js_ge (offsetAngleDeg g) (Fin 0) \<and> js_le (offsetAngleDeg g) (Fin 90)) \<and>
         (is_number p \<and> isFinite p \<and> js_ge p (Fin (1 / 2 ^ 511)) \<longrightarrow>
            js_ge (overhang g) (Fin 0))"
proof -
  note d = calculateGeometry_InrD [OF assms]
  define lo where "lo = js_mul (Fin (1 / 2)) (js_add inn out)"
  define el where "el = Math_sqrt (js_add (js_mul p p) (js_mul inn out))"
  have g: "pivotToSpindle g = p" "innerNull g = inn" "outerNull g = out"
    "offsetAngleDeg g = js_div (js_mul (Math_asin approx (js_div lo el)) (Fin 180)) Math_PI"
    "overhang g = js_sub el p" "linearOffset g = lo"
    by (simp_all add: d(6) lo_def el_def)
  have nn: "js_ge el (Fin 0)" unfolding el_def using d(1-3) by (rule effectiveLength_nonneg)
  have nlt: "\<not> js_lt el lo" using d(5) by (simp add: js_gt_def lo_def el_def)
  have angle: "js_ge (offsetAngleDeg g) (Fin 0) \<and> js_le (offsetAngleDeg g) (Fin 90)"
    if num: "is_number inn" "is_number out" and fin: "isFinite (linearOffset g)"
      and rng: "\<forall>x. 0 < x \<and> x \<le> 1 \<longrightarrow> 0 \<le> approx x \<and> approx x \<le> 7074237752028440 / 2 ^ 52"
  proof -
    obtain r where r: "lo = Fin r" "0 < r"
    proof -
      have "(0::real) < 2 powi (- 1074)" by simp
      moreover have "lo = PInf \<or> (\<exists>r. lo = Fin r \<and> 2 powi (- 1074) \<le> r)"
        unfolding lo_def using num d(2-4) by (rule linearOffset_pos)
      ultimately show ?thesis
        using fin that unfolding g(6) by (cases lo) (auto simp del: power_int_minus)
    qed
    have one: "fl 1 = Fin 1" using fl_int [of 1] by simp
    obtain t where t: "js_div lo el = Fin t" "0 \<le> t" "t \<le> 1"
    proof (cases el)
      case (Fin e)
      then have e: "r \<le> e" using nlt r(1) by simp
      then have "0 \<le> r / e" "r / e \<le> 1" using r(2) by simp_all
      from fl_upper [OF this one] obtain t where "fl (r / e) = Fin t" "0 \<le> t" "t \<le> 1" by blast
      then show ?thesis using that [of t] Fin r e by simp
    next
      case PInf
      then show ?thesis using that [of 0] r(1) by simp
    qed (use nn in \<open>auto simp: js_ge_def\<close>)
    obtain a where a: "Math_asin approx (Fin t) = Fin a" "0 \<le> a" "a \<le> 7074237752028440 / 2 ^ 52"
    proof (cases "t = 0")
      case True
      then show ?thesis using that [of 0] by simp
    next
      case False
      then have "0 < t \<and> t \<le> 1" using t(2,3) by simp
      then have "0 \<le> approx t \<and> approx t \<le> 7074237752028440 / 2 ^ 52" using rng by blast
      then show ?thesis using that [of "approx t"] False t(2,3) by simp
    qed
    from angle_range [OF a(2,3)] obtain ang where
      ang: "js_div (js_mul (Fin a) (Fin 180)) Math_PI = Fin ang" "0 \<le> ang" "ang \<le> 90" by blast
    have "offsetAngleDeg g = Fin ang" by (simp only: g(4) t(1) a(1) ang(1))
    then show ?thesis using ang(2,3) by (simp add: js_ge_def js_le_def)
  qed
  have over: "js_ge (overhang g) (Fin 0)"
    if num: "is_number p" and fin: "isFinite p" and big: "js_ge p (Fin (1 / 2 ^ 511))"
  proof -
    obtain c where c: "p = Fin c" using fin by (cases p) auto
    have "fl c = Fin c" using num c by (simp add: is_double_def)
    moreover have "2 powi (- 511) \<le> c" using big c by (simp add: js_ge_def)
    moreover have "js_ge (js_mul inn out) (Fin 0)" using d(2,3) by (rule mul_nonneg)
    ultimately have "js_le (Fin c) (Math_sqrt (js_add (js_mul (Fin c) (Fin c)) (js_mul inn out)))"
      by (rule effectiveLength_ge_pivot)
    then have ge: "js_le (Fin c) el" by (simp add: el_def c)
    have "js_ge (js_sub el p) (Fin 0)"
    proof (cases el)
      case (Fin e)
      then have "0 \<le> e + - c" using ge by (simp add: js_le_def js_ge_def)
      then have "js_ge (fl (e + - c)) (Fin 0)" by (rule fl_nonneg)
      then show ?thesis by (simp add: js_sub_def Fin c)
    next
      case PInf
      then show ?thesis by (simp add: js_sub_def c js_ge_def)
    qed (use nn in \<open>auto simp: js_ge_def\<close>)
    then show ?thesis by (simp add: g(5))
  qed
  show ?thesis using g(1-3) angle over by blast
qed

theorem result_record_bounds_witness:
  "is_number (Fin 2) \<and> is_number (Fin 3) \<and> is_number (Fin 4) \<and> isFinite (Fin 2) \<and>
   js_ge (Fin 2) (Fin (1 / 2 ^ 511)) \<and>
   (\<exists>g. calculateGeometry (\<lambda>x. min (arcsin x) (7074237752028440 / 2 ^ 52))
          (Fin 2) (Fin 3) (Fin 4) = Inr g \<and>
        isFinite (linearOffset g) \<and>
        pivotToSpindle g = Fin 2 \<and> innerNull g = Fin 3 \<and> outerNull g = Fin 4 \<and>
        js_ge (offsetAngleDeg g) (Fin 0) \<and> js_le (offsetAngleDeg g) (Fin 90) \<and>
        js_ge (overhang g) (Fin 0))"
proof -
  define approx :: "real \<Rightarrow> real" where
    "approx = (\<lambda>x. min (arcsin x) (7074237752028440 / 2 ^ 52))"
  have e: "fl 2 = Fin 2" "fl 3 = Fin 3" "fl 4 = Fin 4" "fl 12 = Fin 12" "fl 16 = Fin 16"
    "fl 7 = Fin 7"
    using fl_int [of 2] fl_int [of 3] fl_int [of 4] fl_int [of 12] fl_int [of 16] fl_int [of 7]
    by simp_all
  have f: "fl (7 / 2) = Fin (7 / 2)" using fl_frac [of 7 1] by simp
  have n: "is_number (Fin 2)" "is_number (Fin 3)" "is_number (Fin 4)"
    by (simp_all add: is_double_def e)
  have b: "isFinite (Fin 2)" "js_ge (Fin 2) (Fin (1 / 2 ^ 511))" by (simp_all add: js_ge_def)
  have r: "\<forall>x. 0 < x \<and> x \<le> 1 \<longrightarrow> 0 \<le> approx x \<and> approx x \<le> 7074237752028440 / 2 ^ 52"
    using arcsin_nonneg by (auto simp: approx_def)
  obtain g where g: "calculateGeometry approx (Fin 2) (Fin 3) (Fin 4) = Inr g"
    "linearOffset g = Fin (7 / 2)"
    by (simp add: calculateGeometry_def Let_def e f sqrt16 js_gt_def js_ge_def)
  have fin: "isFinite (linearOffset g)" by (simp add: g(2))
  from result_record_bounds [OF g(1)] n b fin r g(1)
  show ?thesis unfolding approx_def by blast
qed

end
